theory Spec2Isabelle
  imports Complex_Main "HOL-Library.Word"
begin

section \<open>Data model\<close>

text \<open>
  A JavaScript string is a sequence of UTF-16 code units, so it is modelled as a list of
  16-bit words: \<open>input.length\<close> is \<open>length\<close>, \<open>input.charCodeAt(j)\<close> is
  \<open>uint (input ! j)\<close>, and \<open>String.fromCharCode(x)\<close> is \<open>word_of_int x\<close> (the platform
  reduces its argument modulo \<open>2^16\<close>, as the word type does).  Every \<open>number\<close> of
  \<open>punynode.ts\<close> holds an integer of magnitude far below \<open>2^53\<close>, where the arithmetic of
  doubles is exact; numbers are modelled as \<open>int\<close>, and \<open>Math.floor(a / b)\<close> with a positive
  divisor is \<open>a div b\<close>.  Of the bounds that a platform puts on a program, the model has
  the one that \<open>punynode.ts\<close> meets on a string of moderate length: the number of arguments
  of one call (\<open>spread_fromCodePoint\<close>, \<open>decode_on\<close>).  Memory and the maximal length of a
  string are not modelled.
\<close>

type_synonym jsstring = "16 word list"

text \<open>The three error kinds of \<open>errors\<close> (thrown by \<open>error\<close> as a RangeError), the
  RangeError that the platform's \<open>String.fromCodePoint\<close> throws on a number that is not a
  code point, and the RangeError that the platform throws when a call \<open>f(...array)\<close> spreads
  more elements than it accepts as the arguments of one call.\<close>

datatype error = Overflow | NotBasic | InvalidInput | InvalidCodePoint | TooManyArguments

definition maxInt :: int where "maxInt = 2147483647"
definition base :: int where "base = 36"
definition tMin :: int where "tMin = 1"
definition tMax :: int where "tMax = 26"
definition skew :: int where "skew = 38"
definition damp :: int where "damp = 700"
definition initialBias :: int where "initialBias = 72"
definition initialN :: int where "initialN = 128"
definition delimiter :: "16 word" where "delimiter = 0x2D"

subsection \<open>Platform operations\<close>

text \<open>\<open>x >> 1\<close>: the operand is first converted to a signed 32-bit integer (ToInt32), then
  shifted arithmetically.\<close>

definition toInt32 :: "int \<Rightarrow> int" where
  "toInt32 x = (x + 2147483648) mod 4294967296 - 2147483648"

definition shr1 :: "int \<Rightarrow> int" where
  "shr1 x = toInt32 x div 2"

text \<open>\<open>a % b\<close> truncates towards zero (the sign of the result is the sign of \<open>a\<close>).\<close>

definition js_rem :: "int \<Rightarrow> int \<Rightarrow> int" where
  "js_rem a b = sgn a * (\<bar>a\<bar> mod \<bar>b\<bar>)"

definition fromCharCode :: "int \<Rightarrow> 16 word" where
  "fromCharCode x = word_of_int x"

text \<open>\<open>ucs2decode\<close>: \<open>Array.from(str)\<close> iterates a string by code point, joining a high
  surrogate with the low surrogate that follows it and leaving a lone surrogate alone;
  \<open>codePointAt(0)\<close> then reads the code point.\<close>

fun ucs2decode :: "jsstring \<Rightarrow> int list" where
  "ucs2decode [] = []"
| "ucs2decode [u] = [uint u]"
| "ucs2decode (u # v # rest) =
     (if 0xD800 \<le> uint u \<and> uint u \<le> 0xDBFF \<and> 0xDC00 \<le> uint v \<and> uint v \<le> 0xDFFF
      then ((uint u - 0xD800) * 0x400 + (uint v - 0xDC00) + 0x10000) # ucs2decode rest
      else uint u # ucs2decode (v # rest))"

text \<open>\<open>String.fromCodePoint\<close> on the list of its arguments: a RangeError unless every
  number is an integer from 0 to 0x10FFFF; a code point above 0xFFFF becomes a surrogate
  pair.\<close>

definition codePointUnits :: "int \<Rightarrow> jsstring" where
  "codePointUnits cp =
     (if cp < 0x10000 then [word_of_int cp]
      else [word_of_int (0xD800 + (cp - 0x10000) div 0x400),
            word_of_int (0xDC00 + (cp - 0x10000) mod 0x400)])"

definition fromCodePoint :: "int list \<Rightarrow> error + jsstring" where
  "fromCodePoint cps =
     (if list_all (\<lambda>cp. 0 \<le> cp \<and> cp \<le> 0x10FFFF) cps
      then Inr (concat (map codePointUnits cps))
      else Inl InvalidCodePoint)"

text \<open>The call \<open>String.fromCodePoint(...codePoints)\<close>, as \<open>decode\<close> and \<open>ucs2.encode\<close> write it,
  passes every element of the array as one argument.  The language puts no bound on the
  number of arguments, but every platform does (the arguments go on the call stack), and
  throws a RangeError before the function is entered when the array is longer.  The bound
  depends on the platform and on the stack that is left, so it is the parameter
  \<open>maxArgs\<close>.\<close>

definition spread_fromCodePoint :: "nat \<Rightarrow> int list \<Rightarrow> error + jsstring" where
  "spread_fromCodePoint maxArgs cps =
     (if maxArgs < length cps then Inl TooManyArguments else fromCodePoint cps)"

text \<open>\<open>input.lastIndexOf(c)\<close>: the last index of \<open>c\<close>, or \<open>-1\<close>.\<close>

fun lastIndexOf :: "'a \<Rightarrow> 'a list \<Rightarrow> int" where
  "lastIndexOf c [] = - 1"
| "lastIndexOf c (x # xs) =
     (let r = lastIndexOf c xs in
      if 0 \<le> r then r + 1 else if x = c then 0 else - 1)"

text \<open>\<open>output.splice(i, 0, x)\<close>: insert \<open>x\<close> at index \<open>i\<close>; a negative index counts from
  the end, and the index is clamped to the array.\<close>

definition splice_insert :: "int \<Rightarrow> 'a \<Rightarrow> 'a list \<Rightarrow> 'a list" where
  "splice_insert i x xs =
     (let l = int (length xs);
          s = (if i < 0 then max (l + i) 0 else min i l)
      in take (nat s) xs @ [x] @ drop (nat s) xs)"

text \<open>\<open>str.split(sep)\<close> with a one-unit separator, and \<open>parts.join(sep)\<close>.\<close>

fun split :: "'a \<Rightarrow> 'a list \<Rightarrow> 'a list list" where
  "split sep [] = [[]]"
| "split sep (c # cs) =
     (let parts = split sep cs
      in if c = sep then [] # parts else (c # hd parts) # tl parts)"

fun join :: "'a \<Rightarrow> 'a list list \<Rightarrow> 'a list" where
  "join sep [] = []"
| "join sep [p] = p"
| "join sep (p # q # ps) = p @ sep # join sep (q # ps)"

section \<open>Private utility functions\<close>

definition basicToDigit :: "int \<Rightarrow> int" where
  "basicToDigit codePoint =
     (if codePoint \<ge> 0x30 \<and> codePoint < 0x3A then 26 + (codePoint - 0x30)
      else if codePoint \<ge> 0x41 \<and> codePoint < 0x5B then codePoint - 0x41
      else if codePoint \<ge> 0x61 \<and> codePoint < 0x7B then codePoint - 0x61
      else base)"

text \<open>\<open>(flag ? 1 : 0) << 5\<close> is 32 or 0.\<close>

definition digitToBasic :: "int \<Rightarrow> bool \<Rightarrow> int" where
  "digitToBasic digit flag =
     digit + 22 + 75 * (if digit < 26 then 1 else 0) - (if flag then 1 else 0) * 32"

text \<open>The loop of \<open>adapt\<close>: \<open>for (; delta > (baseMinusTMin * tMax) >> 1; k += base)\<close>.\<close>

function adapt_loop :: "int \<Rightarrow> int \<Rightarrow> int \<times> int" where
  "adapt_loop delta k =
     (if delta > shr1 ((base - tMin) * tMax)
      then adapt_loop (delta div (base - tMin)) (k + base)
      else (delta, k))"
  by pat_completeness auto
termination
  by (relation "measure (\<lambda>(delta, k). nat delta)")
     (auto simp: shr1_def toInt32_def base_def tMin_def tMax_def)

definition adapt :: "int \<Rightarrow> int \<Rightarrow> bool \<Rightarrow> int" where
  "adapt delta numPoints firstTime =
     (let delta1 = (if firstTime then delta div damp else shr1 delta);
          delta2 = delta1 + delta1 div numPoints;
          baseMinusTMin = base - tMin;
          (delta3, k) = adapt_loop delta2 0
      in k + ((baseMinusTMin + 1) * delta3) div (delta3 + skew))"

text \<open>In \<open>adapt\<close> the sum \<open>k + (baseMinusTMin + 1) * delta / (delta + skew)\<close> is floored as a
  whole; \<open>k\<close> is an integer, so the floor is \<open>k\<close> plus the floor of the quotient.\<close>

subsection \<open>The bias adaptation as the specification words it\<close>

text \<open>The formula of the specification, over the rationals: \<open>delta\<close> is divided by 700 and
  floored the first time and halved otherwise, then increased by \<open>floor(delta / numPoints)\<close>;
  while \<open>delta > floor((base - tMin) * tMax / 2)\<close>, \<open>delta\<close> becomes
  \<open>floor(delta / (base - tMin))\<close> and \<open>k\<close> grows by \<open>base\<close>, from \<open>k = 0\<close>; the result is
  \<open>floor(k + (base - tMin + 1) * delta / (delta + skew))\<close>.\<close>

lemma floor_rat_numeral: "\<lfloor>rat_of_int a / numeral n\<rfloor> = a div numeral n"
  using floor_divide_of_int_eq [of a "numeral n", where ?'a = rat] by simp

function adapt_spec_loop :: "int \<Rightarrow> int \<Rightarrow> int \<times> int" where
  "adapt_spec_loop delta k =
     (if delta > \<lfloor>rat_of_int ((base - tMin) * tMax) / 2\<rfloor>
      then adapt_spec_loop \<lfloor>rat_of_int delta / rat_of_int (base - tMin)\<rfloor> (k + base)
      else (delta, k))"
  by pat_completeness auto
termination
  by (relation "measure (\<lambda>(delta, k). nat delta)")
     (auto simp: base_def tMin_def tMax_def floor_rat_numeral)

declare adapt_spec_loop.simps [simp del]

definition adapt_spec :: "int \<Rightarrow> int \<Rightarrow> bool \<Rightarrow> int" where
  "adapt_spec delta numPoints firstTime =
     (let delta1 = (if firstTime then \<lfloor>rat_of_int delta / 700\<rfloor> else \<lfloor>rat_of_int delta / 2\<rfloor>);
          delta2 = delta1 + \<lfloor>rat_of_int delta1 / rat_of_int numPoints\<rfloor>;
          (delta3, k) = adapt_spec_loop delta2 0
      in \<lfloor>rat_of_int k
           + rat_of_int ((base - tMin + 1) * delta3) / rat_of_int (delta3 + skew)\<rfloor>)"

text \<open>The threshold \<open>t\<close> of a digit position, written inline in both \<open>decode\<close> and
  \<open>encode\<close>: \<open>k <= bias ? tMin : k >= bias + tMax ? tMax : k - bias\<close>.\<close>

definition threshold :: "int \<Rightarrow> int \<Rightarrow> int" where
  "threshold k bias = (if k \<le> bias then tMin else if k \<ge> bias + tMax then tMax else k - bias)"

section \<open>decode\<close>

text \<open>The first loop of \<open>decode\<close>, over the units before the last delimiter.\<close>

fun decode_basic :: "jsstring \<Rightarrow> error + int list" where
  "decode_basic [] = Inr []"
| "decode_basic (u # us) =
     (if uint u \<ge> 0x80 then Inl NotBasic
      else case decode_basic us of Inl e \<Rightarrow> Inl e | Inr out \<Rightarrow> Inr (uint u # out))"

text \<open>The inner loop \<open>for (let k = base; ; k += base)\<close>, which reads one generalized
  variable-length integer.  The argument \<open>rest\<close> is the input from \<open>index\<close> on
  (\<open>index >= inputLength\<close> is \<open>rest = []\<close>, and \<open>index++\<close> drops its head); the result is the
  new \<open>i\<close> and the input that is left.\<close>

fun decode_digits :: "int \<Rightarrow> int \<Rightarrow> int \<Rightarrow> int \<Rightarrow> jsstring \<Rightarrow> error + (int \<times> jsstring)" where
  "decode_digits bias i w k [] = Inl InvalidInput"
| "decode_digits bias i w k (c # rest) =
     (let digit = basicToDigit (uint c) in
      if digit \<ge> base then Inl InvalidInput
      else if digit > (maxInt - i) div w then Inl Overflow
      else
        let i' = i + digit * w;
            t = threshold k bias
        in if digit < t then Inr (i', rest)
           else
             let baseMinusT = base - t
             in if w > maxInt div baseMinusT then Inl Overflow
                else decode_digits bias i' (w * baseMinusT) (k + base) rest)"

lemma decode_digits_shorter:
  "decode_digits bias i w k rest = Inr (i', rest') \<Longrightarrow> length rest' < length rest"
proof (induction bias i w k rest arbitrary: i' rest' rule: decode_digits.induct)
  case (1 bias i w k)
  then show ?case by simp
next
  case (2 bias i w k c rest)
  show ?case
  proof (cases "basicToDigit (uint c) < threshold k bias")
    case True
    with "2.prems" show ?thesis by (auto simp: Let_def split: if_splits)
  next
    case False
    with "2.prems" have
      "decode_digits bias (i + basicToDigit (uint c) * w) (w * (base - threshold k bias))
         (k + base) rest = Inr (i', rest')"
      and "\<not> basicToDigit (uint c) \<ge> base"
      and "\<not> basicToDigit (uint c) > (maxInt - i) div w"
      and "\<not> w > maxInt div (base - threshold k bias)"
      by (auto simp: Let_def split: if_splits)
    with False "2.IH" [OF refl _ _ refl refl _ refl, of i' rest'] show ?thesis by simp
  qed
qed

text \<open>The main loop \<open>while (index < inputLength)\<close>.\<close>

function decode_loop :: "int \<Rightarrow> int \<Rightarrow> int \<Rightarrow> int list \<Rightarrow> jsstring \<Rightarrow> error + int list" where
  "decode_loop n i bias output rest =
     (if rest = [] then Inr output
      else case decode_digits bias i 1 base rest of
        Inl e \<Rightarrow> Inl e
      | Inr (i', rest') \<Rightarrow>
          let out = int (length output) + 1;
              bias' = adapt (i' - i) out (i = 0)
          in if i' div out > maxInt - n then Inl Overflow
             else
               let n' = n + i' div out;
                   i'' = js_rem i' out
               in decode_loop n' (i'' + 1) bias' (splice_insert i'' n' output) rest')"
  by pat_completeness auto
termination
  by (relation "measure (\<lambda>(n, i, bias, output, rest). length rest)")
     (auto dest: decode_digits_shorter)

lemma decode_loop_code [code]:
  "decode_loop n i bias output [] = Inr output"
  "decode_loop n i bias output (c # cs) =
     (case decode_digits bias i 1 base (c # cs) of
        Inl e \<Rightarrow> Inl e
      | Inr (i', rest') \<Rightarrow>
          let out = int (length output) + 1;
              bias' = adapt (i' - i) out (i = 0)
          in if i' div out > maxInt - n then Inl Overflow
             else
               let n' = n + i' div out;
                   i'' = js_rem i' out
               in decode_loop n' (i'' + 1) bias' (splice_insert i'' n' output) rest')"
  by simp_all

declare decode_loop.simps [simp del]
declare adapt_loop.simps [simp del]

text \<open>\<open>decode\<close> where the final call \<open>String.fromCodePoint(...output)\<close> takes every number of
  arguments: this is \<open>decode\<close> on each input whose \<open>output\<close> array the platform accepts as
  the arguments of one call.\<close>

definition decode :: "jsstring \<Rightarrow> error + jsstring" where
  "decode input =
     (let basic0 = lastIndexOf delimiter input;
          basic = (if basic0 < 0 then 0 else basic0)
      in case decode_basic (take (nat basic) input) of
           Inl e \<Rightarrow> Inl e
         | Inr output \<Rightarrow>
             let index = (if basic > 0 then basic + 1 else 0)
             in (case decode_loop initialN 0 initialBias output (drop (nat index) input) of
                   Inl e \<Rightarrow> Inl e
                 | Inr out \<Rightarrow> fromCodePoint out))"

text \<open>\<open>decode\<close> on a platform that accepts at most \<open>maxArgs\<close> arguments in the final call:
  the same text, with the spread call as the platform runs it.  The error of the final call
  comes last, after every \<open>error(...)\<close> of the loops.\<close>

definition decode_on :: "nat \<Rightarrow> jsstring \<Rightarrow> error + jsstring" where
  "decode_on maxArgs input =
     (let basic0 = lastIndexOf delimiter input;
          basic = (if basic0 < 0 then 0 else basic0)
      in case decode_basic (take (nat basic) input) of
           Inl e \<Rightarrow> Inl e
         | Inr output \<Rightarrow>
             let index = (if basic > 0 then basic + 1 else 0)
             in (case decode_loop initialN 0 initialBias output (drop (nat index) input) of
                   Inl e \<Rightarrow> Inl e
                 | Inr out \<Rightarrow> spread_fromCodePoint maxArgs out))"

section \<open>encode\<close>

text \<open>The loop \<open>for (let k = base; ; k += base)\<close> of \<open>encode\<close>: the result is the value of
  \<open>q\<close> at the \<open>break\<close> and the units pushed on \<open>output\<close>, in order.\<close>

function encode_digits :: "int \<Rightarrow> int \<Rightarrow> int \<Rightarrow> int \<times> jsstring" where
  "encode_digits bias q k =
     (let t = threshold k bias in
      if q < t then (q, [])
      else
        let qMinusT = q - t;
            baseMinusT = base - t;
            (q', ds) = encode_digits bias (qMinusT div baseMinusT) (k + base)
        in (q', fromCharCode (digitToBasic (t + js_rem qMinusT baseMinusT) False) # ds))"
  by pat_completeness auto
termination
  by (relation "measure (\<lambda>(bias, q, k). nat q)")
     (auto simp: threshold_def tMin_def tMax_def base_def split: if_splits
           intro!: zdiv_mono2 [where b' = 1, simplified, THEN order.strict_trans1])

declare encode_digits.simps [simp del]

text \<open>The state of the main loop of \<open>encode\<close>.\<close>

record enc_state =
  st_n :: int
  st_delta :: int
  st_bias :: int
  st_handled :: int
  st_output :: jsstring

text \<open>\<open>for (const currentValue of codePoints)\<close>, on the code points that are left.  The
  constant \<open>handledCPCountPlusOne\<close> is computed once, before the loop, and is not updated
  when the loop increments \<open>handledCPCount\<close>.\<close>

fun encode_pass :: "int \<Rightarrow> int \<Rightarrow> int list \<Rightarrow> enc_state \<Rightarrow> error + enc_state" where
  "encode_pass basicLength handledCPCountPlusOne [] st = Inr st"
| "encode_pass basicLength handledCPCountPlusOne (currentValue # cps) st =
     (let st1 = (if currentValue < st_n st then st\<lparr>st_delta := st_delta st + 1\<rparr> else st) in
      if currentValue < st_n st \<and> st_delta st1 > maxInt then Inl Overflow
      else
        let st2 =
          (if currentValue = st_n st1 then
             let (q, ds) = encode_digits (st_bias st1) (st_delta st1) base;
                 out = st_output st1 @ ds @ [fromCharCode (digitToBasic q False)]
             in st1\<lparr>st_output := out,
                    st_bias := adapt (st_delta st1) handledCPCountPlusOne
                                 (st_handled st1 = basicLength),
                    st_delta := 0,
                    st_handled := st_handled st1 + 1\<rparr>
           else st1)
        in encode_pass basicLength handledCPCountPlusOne cps st2)"

text \<open>\<open>codePoints.filter(cp => cp >= n).reduce((min, cp) => Math.min(min, cp), maxInt)\<close>.\<close>

definition min_from :: "int list \<Rightarrow> int \<Rightarrow> int" where
  "min_from codePoints n = foldl (\<lambda>mn cp. min mn cp) maxInt (filter (\<lambda>cp. cp \<ge> n) codePoints)"

text \<open>One pass through the body of \<open>while (handledCPCount < codePoints.length)\<close>.\<close>

definition encode_iter :: "int list \<Rightarrow> int \<Rightarrow> enc_state \<Rightarrow> error + enc_state" where
  "encode_iter codePoints basicLength st =
     (let m = min_from codePoints (st_n st);
          handledCPCountPlusOne = st_handled st + 1
      in if m - st_n st > (maxInt - st_delta st) div handledCPCountPlusOne then Inl Overflow
         else
           case encode_pass basicLength handledCPCountPlusOne codePoints
                  (st\<lparr>st_delta := st_delta st + (m - st_n st) * handledCPCountPlusOne,
                      st_n := m\<rparr>) of
             Inl e \<Rightarrow> Inl e
           | Inr st' \<Rightarrow> Inr (st'\<lparr>st_delta := st_delta st' + 1, st_n := st_n st' + 1\<rparr>))"

text \<open>The main loop.  Nothing in its text bounds the number of passes, so it is a partial
  function: \<open>None\<close> is a loop that never ends.  That it always ends from the state in which
  \<open>encode\<close> enters it is proved below.\<close>

partial_function (option) encode_loop ::
  "int list \<Rightarrow> int \<Rightarrow> enc_state \<Rightarrow> (error + jsstring) option" where
  "encode_loop codePoints basicLength st =
     (if st_handled st < int (length codePoints)
      then (case encode_iter codePoints basicLength st of
              Inl e \<Rightarrow> Some (Inl e)
            | Inr st' \<Rightarrow> encode_loop codePoints basicLength st')
      else Some (Inr (st_output st)))"

text \<open>The same loop, with the \<open>case\<close> on the result of the pass as equations.\<close>

definition encode_cont :: "int list \<Rightarrow> int \<Rightarrow> error + enc_state \<Rightarrow> (error + jsstring) option" where
  "encode_cont codePoints basicLength r =
     (case r of Inl e \<Rightarrow> Some (Inl e) | Inr st' \<Rightarrow> encode_loop codePoints basicLength st')"

lemma encode_cont_code [code]:
  "encode_cont codePoints basicLength (Inl e) = Some (Inl e)"
  "encode_cont codePoints basicLength (Inr st') = encode_loop codePoints basicLength st'"
  by (simp_all add: encode_cont_def)

lemma encode_loop_code [code]:
  "encode_loop codePoints basicLength st =
     (if st_handled st < int (length codePoints)
      then encode_cont codePoints basicLength (encode_iter codePoints basicLength st)
      else Some (Inr (st_output st)))"
  by (subst encode_loop.simps) (simp add: encode_cont_def)

definition encode_init :: "int list \<Rightarrow> enc_state" where
  "encode_init codePoints =
     (let output = map fromCharCode (filter (\<lambda>codePoint. codePoint < 0x80) codePoints);
          basicLength = int (length output)
      in \<lparr>st_n = initialN, st_delta = 0, st_bias = initialBias, st_handled = basicLength,
          st_output = (if basicLength > 0 then output @ [delimiter] else output)\<rparr>)"

definition encode_run :: "jsstring \<Rightarrow> (error + jsstring) option" where
  "encode_run input =
     (let codePoints = ucs2decode input
      in encode_loop codePoints
           (int (length (filter (\<lambda>codePoint. codePoint < 0x80) codePoints)))
           (encode_init codePoints))"

text \<open>The value \<open>encode\<close> returns or the error it throws, given that it returns
  (\<open>encode_run_returns\<close> below).\<close>

definition encode :: "jsstring \<Rightarrow> error + jsstring" where
  "encode input = the (encode_run input)"

section \<open>Domain names and email addresses\<close>

text \<open>\<open>regexSeparators\<close> is \<open>/[\x2E\u3002\uFF0E\uFF61]/g\<close>, so
  \<open>domain.replace(regexSeparators, '\x2E')\<close> replaces every separator.\<close>

definition replace_separators :: "jsstring \<Rightarrow> jsstring" where
  "replace_separators domain =
     map (\<lambda>u. if u = 0x2E \<or> u = 0x3002 \<or> u = 0xFF0E \<or> u = 0xFF61 then 0x2E else u) domain"

text \<open>\<open>labels.map(callback)\<close>, where the callback may throw: the labels are mapped from
  left to right and the first error ends the call.\<close>

fun map_labels :: "(jsstring \<Rightarrow> error + jsstring) \<Rightarrow> jsstring list \<Rightarrow> error + jsstring list" where
  "map_labels callback [] = Inr []"
| "map_labels callback (l # ls) =
     (case callback l of
        Inl e \<Rightarrow> Inl e
      | Inr r \<Rightarrow> (case map_labels callback ls of Inl e \<Rightarrow> Inl e | Inr rs \<Rightarrow> Inr (r # rs)))"

text \<open>The local part that \<open>mapDomain\<close> keeps (\<open>result\<close>) and the labels it maps.\<close>

definition local_part :: "jsstring \<Rightarrow> jsstring" where
  "local_part domain =
     (let parts = split 0x40 domain
      in if length parts > 1 then parts ! 0 @ [0x40] else [])"

definition domain_labels :: "jsstring \<Rightarrow> jsstring list" where
  "domain_labels domain =
     (let parts = split 0x40 domain;
          domain' = (if length parts > 1 then parts ! 1 else domain)
      in split 0x2E (replace_separators domain'))"

definition mapDomain :: "jsstring \<Rightarrow> (jsstring \<Rightarrow> error + jsstring) \<Rightarrow> error + jsstring" where
  "mapDomain domain callback =
     (case map_labels callback (domain_labels domain) of
        Inl e \<Rightarrow> Inl e
      | Inr encoded \<Rightarrow> Inr (local_part domain @ join 0x2E encoded))"

text \<open>\<open>regexPunycode\<close> is \<open>/^xn--/\<close> and \<open>regexNonASCII\<close> is \<open>/[^\0-\x7F]/\<close>.\<close>

definition regexPunycode_test :: "jsstring \<Rightarrow> bool" where
  "regexPunycode_test str = (take 4 str = [0x78, 0x6E, 0x2D, 0x2D])"

definition regexNonASCII_test :: "jsstring \<Rightarrow> bool" where
  "regexNonASCII_test str = list_ex (\<lambda>u. u > 0x7F) str"

text \<open>\<open>str.toLowerCase()\<close>.  On a string of ASCII units it maps \<open>A\<close> to \<open>Z\<close> to \<open>a\<close> to
  \<open>z\<close> and keeps the rest.  On any other string the result comes from the platform's Unicode
  case tables, which are not part of the repository: they are the parameter \<open>lower\<close>.\<close>

definition toLowerCase :: "(jsstring \<Rightarrow> jsstring) \<Rightarrow> jsstring \<Rightarrow> jsstring" where
  "toLowerCase lower str =
     (if list_all (\<lambda>u. u < 0x80) str
      then map (\<lambda>u. if 0x41 \<le> u \<and> u \<le> 0x5A then u + 0x20 else u) str
      else lower str)"

definition toUnicode_label :: "(jsstring \<Rightarrow> jsstring) \<Rightarrow> jsstring \<Rightarrow> error + jsstring" where
  "toUnicode_label lower str =
     (if regexPunycode_test str then decode (toLowerCase lower (drop 4 str)) else Inr str)"

definition toUnicode :: "(jsstring \<Rightarrow> jsstring) \<Rightarrow> jsstring \<Rightarrow> error + jsstring" where
  "toUnicode lower input = mapDomain input (toUnicode_label lower)"

definition toASCII_label :: "jsstring \<Rightarrow> error + jsstring" where
  "toASCII_label str =
     (if regexNonASCII_test str
      then (case encode str of Inl e \<Rightarrow> Inl e | Inr r \<Rightarrow> Inr ([0x78, 0x6E, 0x2D, 0x2D] @ r))
      else Inr str)"

definition toASCII :: "jsstring \<Rightarrow> error + jsstring" where
  "toASCII input = mapDomain input toASCII_label"

text \<open>Strings are written as the list of the codes of their characters; \<open>ascii\<close> reads an
  ASCII literal.\<close>

definition ascii :: "string \<Rightarrow> jsstring" where
  "ascii s = map of_char s"

text \<open>The test that the specification words for \<open>toUnicode\<close>: the label starts with
  \<open>xn--\<close>, compared without regard to case.\<close>

definition starts_with_xn_ci :: "jsstring \<Rightarrow> bool" where
  "starts_with_xn_ci str =
     (map (\<lambda>u. if 0x41 \<le> u \<and> u \<le> 0x5A then u + 0x20 else u) (take 4 str)
        = [0x78, 0x6E, 0x2D, 0x2D])"

section \<open>Notions used by the properties\<close>

text \<open>The units that \<open>digitToBasic\<close> produces: \<open>0\<close> to \<open>9\<close> and \<open>a\<close> to \<open>z\<close>.  The numbers
  that \<open>ucs2decode\<close> produces: code points.\<close>

definition digit_unit :: "16 word \<Rightarrow> bool" where
  "digit_unit u = ((0x30 \<le> uint u \<and> uint u \<le> 0x39) \<or> (0x61 \<le> uint u \<and> uint u \<le> 0x7A))"

definition code_points :: "int list \<Rightarrow> bool" where
  "code_points cps = list_all (\<lambda>c. 0 \<le> c \<and> c \<le> 0x10FFFF) cps"

text \<open>The invariant of the main loop of \<open>encode\<close>: the code points handled are those below
  \<open>n\<close>.\<close>

definition enc_inv :: "int list \<Rightarrow> enc_state \<Rightarrow> bool" where
  "enc_inv cps st \<longleftrightarrow>
     st_handled st = int (length (filter (\<lambda>c. c < st_n st) cps)) \<and> 0 \<le> st_delta st"

text \<open>The states in which \<open>encode\<close> tests the condition of its main loop: the state at its
  entry, and the state after a pass that was entered and did not throw.\<close>

inductive encode_reach :: "int list \<Rightarrow> enc_state \<Rightarrow> bool" for codePoints where
  enter: "encode_reach codePoints (encode_init codePoints)"
| pass: "encode_reach codePoints st \<Longrightarrow> st_handled st < int (length codePoints) \<Longrightarrow>
         encode_iter codePoints (int (length (filter (\<lambda>codePoint. codePoint < 0x80) codePoints))) st
           = Inr st' \<Longrightarrow>
         encode_reach codePoints st'"

text \<open>Labels of ASCII units without \<open>.\<close> and \<open>@\<close>.\<close>

definition plain_label :: "jsstring \<Rightarrow> bool" where
  "plain_label r = list_all (\<lambda>u. u \<le> 0x7F \<and> u \<noteq> 0x2E \<and> u \<noteq> 0x40) r"


text \<open>The relation between a state of \<open>encode\<close> inside a pass, with the code points \<open>pre\<close>
  already visited and \<open>post\<close> still to visit, and the state \<open>(n, i, output)\<close> of \<open>decode\<close>
  after it has read what \<open>encode\<close> has written so far: \<open>decode\<close> holds the code points
  handled, and \<open>delta\<close> is the distance from the decoder's position \<open>(dn, di)\<close> to the
  encoder's position, counted in steps of \<open>handledCPCount + 1\<close> per code point value.\<close>

definition enc_dec_rel ::
  "int \<Rightarrow> int list \<Rightarrow> int list \<Rightarrow> enc_state \<Rightarrow> int \<Rightarrow> int \<Rightarrow> int list \<Rightarrow> bool" where
  "enc_dec_rel bl pre post st dn di out \<longleftrightarrow>
     out = filter (\<lambda>c. c \<le> st_n st) pre @ filter (\<lambda>c. c < st_n st) post
     \<and> st_handled st = int (length out)
     \<and> st_delta st = (st_n st - dn) * (st_handled st + 1)
                        + int (length (filter (\<lambda>c. c \<le> st_n st) pre)) - di
     \<and> 0 \<le> st_delta st \<and> 128 \<le> dn \<and> dn \<le> st_n st \<and> 0 \<le> di
     \<and> bl \<le> st_handled st \<and> ((di = 0) = (st_handled st = bl))
     \<and> 0 \<le> st_bias st \<and> st_bias st \<le> 215"

text \<open>What a pass of \<open>encode\<close> from \<open>st\<close> to \<open>st'\<close> that writes \<open>E\<close> means for \<open>decode\<close>: it
  reads \<open>E\<close> and arrives in a related state, or it fails with Overflow; the latter only on
  more than 1927 code points.\<close>

definition sim_after ::
  "int \<Rightarrow> int list \<Rightarrow> enc_state \<Rightarrow> enc_state \<Rightarrow> jsstring \<Rightarrow> int \<Rightarrow> int \<Rightarrow> int list \<Rightarrow> bool" where
  "sim_after bl cps st st' E dn di out \<longleftrightarrow>
     st_n st' = st_n st \<and> st_output st' = st_output st @ E \<and> list_all digit_unit E
     \<and> ((maxInt < 0x10FFFF * int (length cps)
          \<and> (\<forall>R. decode_loop dn di (st_bias st) out (E @ R) = Inl Overflow))
        \<or> (\<exists>dn' di' out'. enc_dec_rel bl cps [] st' dn' di' out'
              \<and> (\<forall>R. decode_loop dn di (st_bias st) out (E @ R)
                       = decode_loop dn' di' (st_bias st') out' R)))"

text \<open>A string of 1926 times \<open>a\<close>, U+0080 and U+10FF70, and what \<open>encode\<close> returns for it.\<close>

definition overflow_input :: jsstring where
  "overflow_input = replicate 1926 0x61 @ [0x80, 0xDBFF, 0xDF70]"

definition overflow_encoded :: jsstring where
  "overflow_encoded = replicate 1926 0x61 @ ascii ''-bub43649585s''"

section \<open>Basic facts\<close>

lemmas bootstring_params =
  maxInt_def base_def tMin_def tMax_def skew_def damp_def initialBias_def initialN_def

lemma lastIndexOf_lower: "- 1 \<le> lastIndexOf c xs"
  by (induction xs) (auto simp: Let_def)

lemma lastIndexOf_absent: "c \<notin> set xs \<Longrightarrow> lastIndexOf c xs = - 1"
  by (induction xs) (auto simp: Let_def)

lemma lastIndexOf_append:
  "c \<notin> set ys \<Longrightarrow> lastIndexOf c (xs @ c # ys) = int (length xs)"
  by (induction xs) (auto simp: Let_def lastIndexOf_absent)

declare encode_cont_code [simp]

lemma ucs2decode_plain_append:
  "list_all (\<lambda>u. uint u < 0xD800) xs \<Longrightarrow> ucs2decode (xs @ ys) = map uint xs @ ucs2decode ys"
proof (induction xs)
  case Nil
  then show ?case by simp
next
  case (Cons x xs)
  then show ?case by (cases "xs @ ys") auto
qed

lemma encode_overflow_example:
  "encode (replicate 1927 0x61 @ [0xDBFF, 0xDFFF]) = Inl Overflow"
proof -
  have cps: "ucs2decode (replicate 1927 0x61 @ [0xDBFF, 0xDFFF]) = replicate 1927 97 @ [1114111]"
    by (subst ucs2decode_plain_append) (simp_all add: list_all_length)
  show ?thesis
    unfolding encode_def encode_run_def cps
    by (simp add: Let_def encode_init_def encode_loop_code encode_iter_def min_from_def
        bootstring_params)
qed

lemma split_not_Nil: "split sep xs \<noteq> []"
  by (induction xs) (auto simp: Let_def)

lemma split_absent: "sep \<notin> set p \<Longrightarrow> split sep p = [p]"
  by (induction p) (auto simp: Let_def)

lemma split_append: "sep \<notin> set p \<Longrightarrow> split sep (p @ sep # r) = p # split sep r"
  by (induction p) (auto simp: Let_def)

lemma map_labels_Inr_iff:
  "map_labels f ls = Inr rs \<longleftrightarrow>
     length rs = length ls \<and> (\<forall>j < length ls. f (ls ! j) = Inr (rs ! j))"
proof (induction ls arbitrary: rs)
  case Nil
  then show ?case by auto
next
  case (Cons l ls)
  show ?case
  proof (cases rs)
    case Nil
    then show ?thesis by (auto split: sum.splits)
  next
    case (Cons r rs')
    then show ?thesis
      using Cons.IH [of rs'] by (auto simp: nth_Cons split: sum.splits nat.splits)
  qed
qed

lemma map_labels_first_error:
  assumes "\<forall>x\<in>set pre. \<exists>r. f x = Inr r" and "f l = Inl e"
  shows "map_labels f (pre @ l # post) = Inl e"
  using assms by (induction pre) (auto split: sum.splits)

section \<open>The bias adaptation\<close>

lemma shr1_halves: "- 2147483648 \<le> x \<Longrightarrow> x < 2147483648 \<Longrightarrow> shr1 x = x div 2"
  by (simp add: shr1_def toInt32_def)

lemma adapt_spec_loop_eq: "adapt_spec_loop delta k = adapt_loop delta k"
proof (induction delta k rule: adapt_loop.induct)
  case (1 delta k)
  show ?case
    using 1 by (subst adapt_spec_loop.simps, subst adapt_loop.simps)
      (simp add: base_def tMin_def tMax_def shr1_def toInt32_def floor_rat_numeral)
qed

text \<open>
  C8.  \<open>adapt\<close> computes the formula of the specification, with \<open>base = 36\<close>, \<open>tMin = 1\<close>,
  \<open>tMax = 26\<close> and \<open>skew = 38\<close>.  The arguments range over what
  \<open>encode\<close> and \<open>decode\<close> pass: a \<open>delta\<close> from 0 to \<open>maxInt\<close> (where \<open>delta >> 1\<close> halves) and
  a positive \<open>numPoints\<close>.
\<close>

theorem adapt_computes_spec_formula:
  assumes "0 \<le> delta" and "delta \<le> maxInt" and "0 < numPoints"
  shows "adapt delta numPoints firstTime = adapt_spec delta numPoints firstTime
         \<and> base = 36 \<and> tMin = 1 \<and> tMax = 26 \<and> skew = 38"
proof -
  have fl: "\<lfloor>rat_of_int k + rat_of_int a / rat_of_int b\<rfloor> = k + a div b" for k a b
    by (simp add: floor_divide_of_int_eq)
  have shr: "shr1 delta = delta div 2"
    using assms by (simp add: shr1_halves maxInt_def)
  have "adapt delta numPoints firstTime = adapt_spec delta numPoints firstTime"
    unfolding adapt_def adapt_spec_def adapt_spec_loop_eq shr fl floor_rat_numeral
      floor_divide_of_int_eq damp_def Let_def
    by (simp split: prod.splits)
  then show ?thesis
    by (simp add: base_def tMin_def tMax_def skew_def)
qed

theorem adapt_computes_spec_formula_witness:
  "(0::int) \<le> 1000 \<and> 1000 \<le> maxInt \<and> (0::int) < 3
   \<and> adapt 1000 3 False = adapt_spec 1000 3 False \<and> adapt 1000 3 False = 48"
  using adapt_computes_spec_formula [of 1000 3 False]
  by (simp add: maxInt_def) code_simp

section \<open>End-to-end fixtures\<close>

text \<open>
  C7.  The three literal fixtures: \<open>toASCII("ma\u00F1ana.com")\<close> is \<open>"xn--maana-pta.com"\<close>,
  \<open>toUnicode("xn--maana-pta.com")\<close> is \<open>"ma\u00F1ana.com"\<close> (whatever the platform's case
  tables are: the label is ASCII), and \<open>toASCII("user@fa\u00E7ade.com")\<close> is
  \<open>"user@xn--faade-zra.com"\<close>.
\<close>

theorem fixtures_end_to_end:
  "toASCII (ascii ''ma'' @ [0xF1] @ ascii ''ana.com'') = Inr (ascii ''xn--maana-pta.com'')
   \<and> toUnicode lower (ascii ''xn--maana-pta.com'') = Inr (ascii ''ma'' @ [0xF1] @ ascii ''ana.com'')
   \<and> toASCII (ascii ''user@fa'' @ [0xE7] @ ascii ''ade.com'')
       = Inr (ascii ''user@xn--faade-zra.com'')"
  by code_simp

section \<open>A delimiter at index 0 only\<close>

text \<open>
  C10.  When the only \<open>-\<close> of a non-empty input is its first unit, \<open>lastIndexOf\<close> is 0, so
  \<open>basic\<close> is 0, no unit is copied as basic, \<open>index\<close> stays 0 and the \<open>-\<close> itself is read as
  the first digit: \<open>basicToDigit\<close> answers \<open>base\<close> and \<open>decode\<close> fails with InvalidInput.
\<close>

theorem decode_leading_delimiter_only:
  assumes "input \<noteq> []" and "hd input = delimiter" and "delimiter \<notin> set (tl input)"
  shows "lastIndexOf delimiter input = 0
         \<and> decode_basic (take (nat (lastIndexOf delimiter input)) input) = Inr []
         \<and> decode_digits initialBias 0 1 base input = Inl InvalidInput
         \<and> decode input = Inl InvalidInput"
proof -
  from assms obtain rest where input: "input = delimiter # rest" and rest: "delimiter \<notin> set rest"
    by (cases input) auto
  have last: "lastIndexOf delimiter input = 0"
    using rest by (simp add: input lastIndexOf_absent)
  have digit: "basicToDigit (uint delimiter) = base"
    by (simp add: basicToDigit_def delimiter_def)
  have digits: "decode_digits b 0 1 base input = Inl InvalidInput" for b
    by (simp add: input digit)
  have loop: "decode_loop initialN 0 initialBias [] input = Inl InvalidInput"
    by (simp add: input decode_loop_code digit)
  show ?thesis
    using last digits loop by (simp add: decode_def)
qed

theorem decode_leading_delimiter_only_witness:
  "ascii ''-a'' \<noteq> [] \<and> hd (ascii ''-a'') = delimiter \<and> delimiter \<notin> set (tl (ascii ''-a''))
   \<and> decode (ascii ''-a'') = Inl InvalidInput"
  using decode_leading_delimiter_only [of "ascii ''-a''"]
  by (simp add: ascii_def delimiter_def)

section \<open>The encoder: digits, the invariant of the main loop, termination\<close>

lemma uint_fromCharCode: "0 \<le> x \<Longrightarrow> x < 65536 \<Longrightarrow> uint (fromCharCode x) = x"
  by (simp add: fromCharCode_def uint_word_of_int)

lemma digitToBasic_unit:
  assumes "0 \<le> d" and "d < 36"
  shows "digit_unit (fromCharCode (digitToBasic d False))"
    and "basicToDigit (uint (fromCharCode (digitToBasic d False))) = d"
proof -
  have r: "0 \<le> digitToBasic d False" "digitToBasic d False < 65536"
    using assms by (auto simp: digitToBasic_def)
  note u = uint_fromCharCode [OF r]
  show "digit_unit (fromCharCode (digitToBasic d False))"
    unfolding digit_unit_def u using assms by (auto simp: digitToBasic_def)
  show "basicToDigit (uint (fromCharCode (digitToBasic d False))) = d"
    unfolding u using assms by (auto simp: digitToBasic_def basicToDigit_def base_def)
qed

lemma threshold_range: "1 \<le> threshold k bias \<and> threshold k bias \<le> 26"
  by (auto simp: threshold_def tMin_def tMax_def)

lemma js_rem_nonneg: "0 \<le> a \<Longrightarrow> 0 < b \<Longrightarrow> js_rem a b = a mod b"
  by (cases "a = 0") (auto simp: js_rem_def)

lemma encode_digits_units:
  assumes "0 \<le> q" and "encode_digits bias q k = (q', ds)"
  shows "0 \<le> q' \<and> q' < 26 \<and> list_all digit_unit ds"
  using assms
proof (induction bias q k arbitrary: q' ds rule: encode_digits.induct)
  case (1 bias q k)
  let ?t = "threshold k bias"
  have t: "1 \<le> ?t" "?t \<le> 26" using threshold_range [of k bias] by auto
  show ?case
  proof (cases "q < ?t")
    case True
    with "1.prems" t show ?thesis
      by (subst (asm) encode_digits.simps) (auto simp: Let_def)
  next
    case False
    obtain q1 ds1 where rec: "encode_digits bias ((q - ?t) div (base - ?t)) (k + base) = (q1, ds1)"
      by fastforce
    have nonneg: "0 \<le> (q - ?t) div (base - ?t)"
      using False t by (simp add: base_def pos_imp_zdiv_nonneg_iff)
    from "1.IH" [OF refl False refl refl nonneg rec]
    have ih: "0 \<le> q1 \<and> q1 < 26 \<and> list_all digit_unit ds1" .
    have rem: "js_rem (q - ?t) (base - ?t) = (q - ?t) mod (base - ?t)"
      using False t by (simp add: js_rem_nonneg base_def)
    have pos: "0 < base - ?t" using t by (simp add: base_def)
    have m1: "(q - ?t) mod (base - ?t) < base - ?t" using pos by (rule pos_mod_bound)
    have m2: "0 \<le> (q - ?t) mod (base - ?t)" using pos by (rule pos_mod_sign)
    have d: "0 \<le> ?t + (q - ?t) mod (base - ?t)" "?t + (q - ?t) mod (base - ?t) < 36"
      using t m1 m2 unfolding base_def by linarith+
    from "1.prems"(2) False rec
    have "q' = q1" "ds = fromCharCode (digitToBasic (?t + js_rem (q - ?t) (base - ?t)) False) # ds1"
      by (subst (asm) encode_digits.simps, simp add: Let_def)+
    with ih digitToBasic_unit(1) [OF d] rem show ?thesis by simp
  qed
qed
lemma encode_pass_facts:
  assumes "0 \<le> st_delta st"
  shows "encode_pass bl hp cs st = Inl Overflow \<or>
         (\<exists>st' E. encode_pass bl hp cs st = Inr st' \<and> st_n st' = st_n st
            \<and> st_handled st' = st_handled st + int (length (filter (\<lambda>c. c = st_n st) cs))
            \<and> 0 \<le> st_delta st' \<and> st_output st' = st_output st @ E \<and> list_all digit_unit E)"
  using assms
proof (induction cs arbitrary: st)
  case Nil
  then show ?case by simp
next
  case (Cons c cs)
  let ?n = "st_n st"
  consider (less) "c < ?n" "st_delta st + 1 > maxInt"
    | (less_ok) "c < ?n" "\<not> st_delta st + 1 > maxInt"
    | (eq) "c = ?n" | (greater) "c > ?n"
    by linarith
  then show ?case
  proof cases
    case less
    then show ?thesis by simp
  next
    case less_ok
    let ?st1 = "st\<lparr>st_delta := st_delta st + 1\<rparr>"
    have step: "encode_pass bl hp (c # cs) st = encode_pass bl hp cs ?st1"
      using less_ok by (simp add: Let_def)
    have "0 \<le> st_delta ?st1" using Cons.prems by simp
    from Cons.IH [OF this] less_ok show ?thesis
      unfolding step by auto
  next
    case eq
    obtain q ds where enc: "encode_digits (st_bias st) (st_delta st) base = (q, ds)"
      by fastforce
    let ?st2 = "st\<lparr>st_output := st_output st @ ds @ [fromCharCode (digitToBasic q False)],
                    st_bias := adapt (st_delta st) hp (st_handled st = bl),
                    st_delta := 0, st_handled := st_handled st + 1\<rparr>"
    have step: "encode_pass bl hp (c # cs) st = encode_pass bl hp cs ?st2"
      using eq enc by (simp add: Let_def)
    from encode_digits_units [OF Cons.prems enc]
    have q: "0 \<le> q" "q < 36" and ds: "list_all digit_unit ds" by auto
    have E: "list_all digit_unit (ds @ [fromCharCode (digitToBasic q False)])"
      using ds digitToBasic_unit(1) [OF q] by simp
    have "0 \<le> st_delta ?st2" by simp
    from Cons.IH [OF this] show ?thesis
      unfolding step
    proof (elim disjE exE conjE)
      assume "encode_pass bl hp cs ?st2 = Inl Overflow"
      then show "encode_pass bl hp cs ?st2 = Inl Overflow \<or>
         (\<exists>st' E. encode_pass bl hp cs ?st2 = Inr st' \<and> st_n st' = st_n st
            \<and> st_handled st' = st_handled st + int (length (filter (\<lambda>c. c = st_n st) (c # cs)))
            \<and> 0 \<le> st_delta st' \<and> st_output st' = st_output st @ E \<and> list_all digit_unit E)"
        by simp
    next
      fix st' E'
      assume a: "encode_pass bl hp cs ?st2 = Inr st'" "st_n st' = st_n ?st2"
        "st_handled st' = st_handled ?st2 + int (length (filter (\<lambda>c. c = st_n ?st2) cs))"
        "0 \<le> st_delta st'" "st_output st' = st_output ?st2 @ E'" "list_all digit_unit E'"
      have "st_output st' = st_output st @ (ds @ [fromCharCode (digitToBasic q False)] @ E')"
        using a(5) by simp
      moreover have "list_all digit_unit (ds @ [fromCharCode (digitToBasic q False)] @ E')"
        using E a(6) by simp
      ultimately show "encode_pass bl hp cs ?st2 = Inl Overflow \<or>
         (\<exists>st' E. encode_pass bl hp cs ?st2 = Inr st' \<and> st_n st' = st_n st
            \<and> st_handled st' = st_handled st + int (length (filter (\<lambda>c. c = st_n st) (c # cs)))
            \<and> 0 \<le> st_delta st' \<and> st_output st' = st_output st @ E \<and> list_all digit_unit E)"
        using a(1-4) eq by (intro disjI2 exI conjI) auto
    qed
  next
    case greater
    have step: "encode_pass bl hp (c # cs) st = encode_pass bl hp cs st"
      using greater by (simp add: Let_def)
    from Cons.IH [OF Cons.prems] greater show ?thesis
      unfolding step by auto
  qed
qed

lemma foldl_min_facts:
  "foldl (\<lambda>mn cp. min mn cp) a xs \<le> (a::int)
   \<and> (\<forall>x\<in>set xs. foldl (\<lambda>mn cp. min mn cp) a xs \<le> x)
   \<and> (foldl (\<lambda>mn cp. min mn cp) a xs = a \<or> foldl (\<lambda>mn cp. min mn cp) a xs \<in> set xs)"
proof (induction xs arbitrary: a)
  case Nil
  then show ?case by simp
next
  case (Cons x xs)
  from Cons [of "min a x"] show ?case
    by (auto simp: min_def split: if_splits)
qed

lemma min_from_facts:
  assumes "code_points cps" and "c0 \<in> set cps" and "n \<le> c0"
  shows "min_from cps n \<in> set cps" and "n \<le> min_from cps n"
    and "\<forall>c\<in>set cps. n \<le> c \<longrightarrow> min_from cps n \<le> c"
    and "min_from cps n \<le> 0x10FFFF"
proof -
  let ?xs = "filter (\<lambda>cp. cp \<ge> n) cps"
  note f = foldl_min_facts [of maxInt ?xs, folded min_from_def]
  have c0: "c0 \<in> set ?xs" using assms by simp
  have "c0 \<le> 0x10FFFF" using assms(1,2) by (auto simp: code_points_def list_all_iff)
  with f c0 have "min_from cps n \<le> 0x10FFFF" by force
  then have "min_from cps n \<noteq> maxInt" by (simp add: maxInt_def)
  with f have m: "min_from cps n \<in> set ?xs" by blast
  then show "min_from cps n \<in> set cps" "n \<le> min_from cps n" by auto
  from f show "\<forall>c\<in>set cps. n \<le> c \<longrightarrow> min_from cps n \<le> c" by auto
  show "min_from cps n \<le> 0x10FFFF" by fact
qed

lemma filter_less_all:
  "length (filter P xs) = length xs \<Longrightarrow> x \<in> set xs \<Longrightarrow> P x"
  using length_filter_less [of x xs P] by auto
lemma length_filter_split:
  assumes "\<forall>x\<in>set xs. R x \<longleftrightarrow> (P x \<or> Q x)" and "\<forall>x\<in>set xs. \<not> (P x \<and> Q x)"
  shows "length (filter R xs) = length (filter P xs) + length (filter Q xs)"
  using assms by (induction xs) auto

lemma enc_inv_unhandled:
  assumes "enc_inv cps st" and "st_handled st < int (length cps)"
  shows "\<exists>c\<in>set cps. st_n st \<le> c"
proof (rule ccontr)
  assume "\<not> (\<exists>c\<in>set cps. st_n st \<le> c)"
  then have "filter (\<lambda>c. c < st_n st) cps = cps" by (auto simp: filter_id_conv)
  with assms show False by (simp add: enc_inv_def)
qed

lemma encode_iter_facts:
  assumes inv: "enc_inv cps st" and cps: "code_points cps"
    and more: "st_handled st < int (length cps)"
  shows "encode_iter cps bl st = Inl Overflow \<or>
         (\<exists>st' E. encode_iter cps bl st = Inr st' \<and> enc_inv cps st'
            \<and> st_handled st < st_handled st'
            \<and> st_output st' = st_output st @ E \<and> list_all digit_unit E)"
proof -
  let ?n = "st_n st"
  let ?m = "min_from cps ?n"
  from enc_inv_unhandled [OF inv more] obtain c0 where c0: "c0 \<in> set cps" "?n \<le> c0" by blast
  note m = min_from_facts [OF cps c0]
  let ?st0 = "st\<lparr>st_delta := st_delta st + (?m - ?n) * (st_handled st + 1), st_n := ?m\<rparr>"
  have h0: "0 \<le> st_handled st" using inv by (simp add: enc_inv_def)
  have d0: "0 \<le> st_delta ?st0"
    using inv m(2) h0 by (simp add: enc_inv_def)
  show ?thesis
  proof (cases "?m - ?n > (maxInt - st_delta st) div (st_handled st + 1)")
    case True
    then show ?thesis by (simp add: encode_iter_def Let_def)
  next
    case False
    from encode_pass_facts [OF d0, of bl "st_handled st + 1" cps] show ?thesis
    proof (elim disjE exE conjE)
      assume "encode_pass bl (st_handled st + 1) cps ?st0 = Inl Overflow"
      then show ?thesis using False by (simp add: encode_iter_def Let_def)
    next
      fix st' E
      assume a: "encode_pass bl (st_handled st + 1) cps ?st0 = Inr st'" "st_n st' = st_n ?st0"
        "st_handled st' = st_handled ?st0 + int (length (filter (\<lambda>c. c = st_n ?st0) cps))"
        "0 \<le> st_delta st'" "st_output st' = st_output ?st0 @ E" "list_all digit_unit E"
      let ?st'' = "st'\<lparr>st_delta := st_delta st' + 1, st_n := st_n st' + 1\<rparr>"
      have res: "encode_iter cps bl st = Inr ?st''"
        using False a(1) by (simp add: encode_iter_def Let_def)
      have count: "length (filter (\<lambda>c. c < ?m + 1) cps)
                   = length (filter (\<lambda>c. c < ?n) cps) + length (filter (\<lambda>c. c = ?m) cps)"
        using m(2,3) by (intro length_filter_split) auto
      have "0 < length (filter (\<lambda>c. c = ?m) cps)"
        using m(1) by (simp add: filter_empty_conv)
      with a inv count have "enc_inv cps ?st''" "st_handled st < st_handled ?st''"
        by (simp_all add: enc_inv_def)
      with res a(5,6) show ?thesis by auto
    qed
  qed
qed

lemma encode_loop_facts:
  assumes "enc_inv cps st" and "code_points cps"
  shows "encode_loop cps bl st = Some (Inl Overflow) \<or>
         (\<exists>E. encode_loop cps bl st = Some (Inr (st_output st @ E)) \<and> list_all digit_unit E)"
  using assms(1)
proof (induction "nat (int (length cps) - st_handled st)" arbitrary: st rule: less_induct)
  case less
  show ?case
  proof (cases "st_handled st < int (length cps)")
    case False
    then have "encode_loop cps bl st = Some (Inr (st_output st @ []))"
      by (simp add: encode_loop_code)
    then show ?thesis by (intro disjI2 exI [of _ "[]"]) simp
  next
    case True
    from encode_iter_facts [OF less.prems assms(2) True, of bl] show ?thesis
    proof (elim disjE exE conjE)
      assume "encode_iter cps bl st = Inl Overflow"
      with True show ?thesis by (simp add: encode_loop_code)
    next
      fix st' E
      assume a: "encode_iter cps bl st = Inr st'" "enc_inv cps st'"
        "st_handled st < st_handled st'" "st_output st' = st_output st @ E"
        "list_all digit_unit E"
      have step: "encode_loop cps bl st = encode_loop cps bl st'"
        using True a(1) by (simp add: encode_loop_code)
      have "nat (int (length cps) - st_handled st') < nat (int (length cps) - st_handled st)"
        using True a(3) by linarith
      from less.hyps [OF this a(2)] show ?thesis
        unfolding step
      proof (elim disjE exE conjE)
        assume "encode_loop cps bl st' = Some (Inl Overflow)"
        then show "encode_loop cps bl st' = Some (Inl Overflow) \<or>
          (\<exists>E. encode_loop cps bl st' = Some (Inr (st_output st @ E)) \<and> list_all digit_unit E)"
          by simp
      next
        fix E'
        assume b: "encode_loop cps bl st' = Some (Inr (st_output st' @ E'))" "list_all digit_unit E'"
        then have "encode_loop cps bl st' = Some (Inr (st_output st @ (E @ E')))"
          "list_all digit_unit (E @ E')"
          using a(4,5) by simp_all
        then show "encode_loop cps bl st' = Some (Inl Overflow) \<or>
          (\<exists>E. encode_loop cps bl st' = Some (Inr (st_output st @ E)) \<and> list_all digit_unit E)"
          by blast
      qed
    qed
  qed
qed

lemma ucs2decode_code_points: "code_points (ucs2decode s)"
proof (induction s rule: ucs2decode.induct)
  case 1
  then show ?case by (simp add: code_points_def)
next
  case (2 u)
  have "uint u < 65536" using uint_lt2p [of u] by simp
  then show ?case by (simp add: code_points_def)
next
  case (3 u v rest)
  have "uint u < 65536" using uint_lt2p [of u] by simp
  with 3 show ?case by (auto simp: code_points_def)
qed

lemma enc_inv_init: "enc_inv cps (encode_init cps)"
  by (simp add: enc_inv_def encode_init_def Let_def initialN_def)

text \<open>\<open>encode\<close> always returns: the main loop ends.\<close>

lemma encode_run_returns: "encode_run input = Some (encode input)"
proof -
  let ?cps = "ucs2decode input"
  from encode_loop_facts [OF enc_inv_init ucs2decode_code_points,
      of input "int (length (filter (\<lambda>c. c < 0x80) ?cps))"]
  have "\<exists>r. encode_run input = Some r"
    by (auto simp: encode_run_def Let_def)
  then show ?thesis by (auto simp: encode_def)
qed
lemma encode_reach_on_run:
  assumes "encode_reach cps st"
  shows "encode_loop cps (int (length (filter (\<lambda>c. c < 0x80) cps))) st
         = encode_loop cps (int (length (filter (\<lambda>c. c < 0x80) cps))) (encode_init cps)"
  using assms
proof (induction rule: encode_reach.induct)
  case enter
  show ?case by (rule refl)
next
  case (pass st st')
  from pass.hyps(2,3) pass.IH show ?case
    by (subst (asm) encode_loop_code) simp
qed

lemma encode_reach_inv:
  assumes "encode_reach cps st" and "code_points cps"
  shows "enc_inv cps st"
  using assms(1)
proof (induction rule: encode_reach.induct)
  case enter
  show ?case by (rule enc_inv_init)
next
  case (pass st st')
  from encode_iter_facts [OF pass.IH assms(2) pass.hyps(2),
      of "int (length (filter (\<lambda>c. c < 0x80) cps))"] pass.hyps(3)
  show ?case by auto
qed

text \<open>
  C9.  In every state in which the main loop of \<open>encode\<close> is entered (\<open>handledCPCount\<close> below
  the number of code points), an input code point is at least \<open>n\<close>: the minimum \<open>m\<close> is one
  of the input code points, it is at least \<open>n\<close>, and it is not the fallback \<open>maxInt\<close>.
\<close>

theorem encode_minimum_is_attained:
  assumes "encode_reach (ucs2decode input) st"
    and "st_handled st < int (length (ucs2decode input))"
  shows "(\<exists>cp\<in>set (ucs2decode input). st_n st \<le> cp)
         \<and> min_from (ucs2decode input) (st_n st) \<in> set (ucs2decode input)
         \<and> st_n st \<le> min_from (ucs2decode input) (st_n st)
         \<and> min_from (ucs2decode input) (st_n st) < maxInt"
proof -
  have inv: "enc_inv (ucs2decode input) st"
    using assms(1) ucs2decode_code_points by (rule encode_reach_inv)
  from enc_inv_unhandled [OF inv assms(2)] obtain c0
    where c0: "c0 \<in> set (ucs2decode input)" "st_n st \<le> c0" by blast
  from min_from_facts [OF ucs2decode_code_points c0] c0 show ?thesis
    by (auto simp: maxInt_def)
qed

theorem encode_minimum_is_attained_witness:
  "encode_reach (ucs2decode (ascii ''ma'' @ [0xF1] @ ascii ''ana''))
     (encode_init (ucs2decode (ascii ''ma'' @ [0xF1] @ ascii ''ana'')))
   \<and> st_handled (encode_init (ucs2decode (ascii ''ma'' @ [0xF1] @ ascii ''ana'')))
       < int (length (ucs2decode (ascii ''ma'' @ [0xF1] @ ascii ''ana'')))
   \<and> min_from (ucs2decode (ascii ''ma'' @ [0xF1] @ ascii ''ana''))
        (st_n (encode_init (ucs2decode (ascii ''ma'' @ [0xF1] @ ascii ''ana''))))
       \<in> set (ucs2decode (ascii ''ma'' @ [0xF1] @ ascii ''ana''))
   \<and> min_from (ucs2decode (ascii ''ma'' @ [0xF1] @ ascii ''ana''))
        (st_n (encode_init (ucs2decode (ascii ''ma'' @ [0xF1] @ ascii ''ana'')))) = 0xF1"
proof -
  let ?s = "ascii ''ma'' @ [0xF1] @ ascii ''ana''"
  have r: "encode_reach (ucs2decode ?s) (encode_init (ucs2decode ?s))"
    by (rule encode_reach.enter)
  have h: "st_handled (encode_init (ucs2decode ?s)) < int (length (ucs2decode ?s))"
    by code_simp
  have v: "min_from (ucs2decode ?s) (st_n (encode_init (ucs2decode ?s))) = 0xF1"
    by code_simp
  from encode_minimum_is_attained [OF r h] r h v show ?thesis by blast
qed

lemma ucs2decode_basic:
  "filter (\<lambda>c. c < 0x80) (ucs2decode s) = map uint (filter (\<lambda>u. uint u < 0x80) s)"
  by (induction s rule: ucs2decode.induct) auto

lemma fromCharCode_uint: "fromCharCode (uint u) = u"
  by (simp add: fromCharCode_def)

lemma encode_init_output:
  "st_output (encode_init (ucs2decode s)) =
     (let b = filter (\<lambda>u. uint u < 0x80) s in if b = [] then [] else b @ [delimiter])"
  by (simp add: encode_init_def Let_def ucs2decode_basic o_def fromCharCode_uint)

lemma encode_shape:
  "encode s = Inl Overflow \<or>
   (\<exists>E. encode s = Inr ((let b = filter (\<lambda>u. uint u < 0x80) s in if b = [] then [] else b @ [delimiter]) @ E)
        \<and> list_all digit_unit E)"
proof -
  let ?cps = "ucs2decode s"
  from encode_loop_facts [OF enc_inv_init ucs2decode_code_points,
      of s "int (length (filter (\<lambda>c. c < 0x80) ?cps))"]
  show ?thesis
    unfolding encode_init_output
    using encode_run_returns [of s] by (auto simp: encode_run_def Let_def)
qed

text \<open>
  C5.  Every unit of a string that \<open>encode\<close> returns is below 0x80: the output is the basic
  units of the input, the delimiter, and digits.
\<close>

theorem encode_output_is_ascii:
  assumes "encode input = Inr out"
  shows "\<forall>u\<in>set out. u < 0x80"
proof -
  from encode_shape [of input] assms obtain E where
    out: "out = (let b = filter (\<lambda>u. uint u < 0x80) input in if b = [] then [] else b @ [delimiter]) @ E"
    and E: "list_all digit_unit E"
    by auto
  have "u < 0x80" if "digit_unit u" for u
    using that by (auto simp: digit_unit_def word_less_def)
  with E have "\<forall>u\<in>set E. u < 0x80" by (auto simp: list_all_iff)
  moreover have "\<forall>u\<in>set (filter (\<lambda>u. uint u < 0x80) input). u < 0x80"
    by (auto simp: word_less_def)
  moreover have "delimiter < 0x80" by (simp add: delimiter_def)
  ultimately show ?thesis
    unfolding out by (auto simp: Let_def)
qed

theorem encode_output_is_ascii_witness:
  "encode (ascii ''ma'' @ [0xF1] @ ascii ''ana'') = Inr (ascii ''maana-pta'')
   \<and> list_all (\<lambda>u. u < 0x80) (ascii ''maana-pta'')"
proof -
  have e: "encode (ascii ''ma'' @ [0xF1] @ ascii ''ana'') = Inr (ascii ''maana-pta'')"
    by code_simp
  from encode_output_is_ascii [OF e] e show ?thesis by (simp add: list_all_iff)
qed
section \<open>The round trip\<close>

subsection \<open>Arithmetic and the bias\<close>

lemma int_div_less_iff:
  fixes x w d :: int
  assumes "0 < w"
  shows "x div w < d \<longleftrightarrow> x < d * w"
proof
  assume "x div w < d"
  then have "x div w + 1 \<le> d" by simp
  then have "(x div w + 1) * w \<le> d * w" using assms by (simp add: mult_right_mono)
  moreover have "x = (x div w) * w + x mod w" by simp
  moreover have "x mod w < w" using assms by simp
  moreover have "(x div w + 1) * w = (x div w) * w + w" by (simp add: algebra_simps)
  ultimately show "x < d * w" by linarith
next
  assume a: "x < d * w"
  show "x div w < d"
  proof (rule ccontr)
    assume "\<not> x div w < d"
    then have "d \<le> x div w" by simp
    then have "d * w \<le> (x div w) * w" using assms by (simp add: mult_right_mono)
    moreover have "x = (x div w) * w + x mod w" by simp
    moreover have "0 \<le> x mod w" using assms by simp
    ultimately show False using a by linarith
  qed
qed

lemma adapt_loop_bounds:
  assumes "0 \<le> delta" and "delta < 456 * 35 ^ m" and "adapt_loop delta k = (d', k')"
  shows "0 \<le> d' \<and> d' \<le> 455 \<and> k \<le> k' \<and> k' \<le> k + 36 * int m"
  using assms
proof (induction m arbitrary: delta k)
  case 0
  then show ?case
    by (simp add: adapt_loop.simps [of delta k] shr1_def toInt32_def base_def tMin_def tMax_def
        split: if_splits)
next
  case (Suc m)
  show ?case
  proof (cases "delta > 455")
    case False
    with Suc.prems show ?thesis
      by (simp add: adapt_loop.simps [of delta k] shr1_def toInt32_def base_def tMin_def tMax_def
          split: if_splits)
  next
    case True
    with Suc.prems(3) have rec: "adapt_loop (delta div 35) (k + 36) = (d', k')"
      by (simp add: adapt_loop.simps [of delta k] shr1_def toInt32_def base_def tMin_def tMax_def
          split: if_splits)
    have "delta div 35 < 456 * 35 ^ m"
      using Suc.prems(2) by (simp add: int_div_less_iff)
    moreover have "0 \<le> delta div 35" using Suc.prems(1) by simp
    ultimately show ?thesis
      using Suc.IH [OF _ _ rec] by auto
  qed
qed

lemma adapt_bounds:
  assumes "0 \<le> delta" and "delta \<le> maxInt" and "1 \<le> numPoints"
  shows "0 \<le> adapt delta numPoints firstTime \<and> adapt delta numPoints firstTime \<le> 215"
proof -
  let ?d1 = "if firstTime then delta div damp else shr1 delta"
  let ?d2 = "?d1 + ?d1 div numPoints"
  have d1: "0 \<le> ?d1" "?d1 \<le> 1073741823"
    using assms(1,2) by (auto simp: shr1_halves maxInt_def damp_def)
  have "?d1 div numPoints \<le> ?d1"
    using d1(1) assms(3) by (metis div_by_1 zdiv_mono2 zero_less_one)
  moreover have "0 \<le> ?d1 div numPoints"
    using d1(1) assms(3) by (simp add: pos_imp_zdiv_nonneg_iff)
  ultimately have d2: "0 \<le> ?d2" "?d2 < 456 * 35 ^ 5"
    using d1 by auto
  obtain d3 k where loop: "adapt_loop ?d2 0 = (d3, k)" by fastforce
  from adapt_loop_bounds [OF d2 loop] have b: "0 \<le> d3" "d3 \<le> 455" "0 \<le> k" "k \<le> 180"
    by auto
  have "36 * d3 div (d3 + 38) < 36"
    using b(1) by (simp add: int_div_less_iff)
  moreover have "0 \<le> 36 * d3 div (d3 + 38)"
    using b(1) by (simp add: pos_imp_zdiv_nonneg_iff)
  ultimately show ?thesis
    using b loop by (simp add: adapt_def Let_def base_def tMin_def skew_def)
qed

text \<open>\<open>encode\<close> passes to \<open>adapt\<close> the \<open>handledCPCountPlusOne\<close> of the start of the pass, and
  \<open>decode\<close> the current length plus one.  After the first code point of a pass, \<open>delta\<close> is
  below both, and then the two calls agree.\<close>

lemma adapt_small:
  assumes "0 \<le> d" and "d \<le> maxInt" and "d < P" and "d < Q"
  shows "adapt d P False = adapt d Q False"
proof -
  have shr: "shr1 d = d div 2" using assms(1,2) by (simp add: shr1_halves maxInt_def)
  have d2: "0 \<le> d div 2" "d div 2 \<le> d" using assms(1) by simp_all
  have "d div 2 div P = 0" "d div 2 div Q = 0"
    using d2 assms(3,4) by simp_all
  then show ?thesis by (simp add: adapt_def shr)
qed

subsection \<open>One variable-length integer\<close>

lemma decode_digits_step:
  assumes "0 \<le> d" and "d < 36" and "0 < w"
  shows "decode_digits bias i w k (fromCharCode (digitToBasic d False) # rest) =
     (if i + d * w > maxInt then Inl Overflow
      else if d < threshold k bias then Inr (i + d * w, rest)
      else if w * (36 - threshold k bias) > maxInt then Inl Overflow
      else decode_digits bias (i + d * w) (w * (36 - threshold k bias)) (k + 36) rest)"
proof -
  have pos: "0 < 36 - threshold k bias" using threshold_range [of k bias] by simp
  have chk: "((maxInt - i) div w < d) = (i + d * w > maxInt)"
    using int_div_less_iff [OF assms(3), of "maxInt - i" d] by auto
  have chk2: "(maxInt div (36 - threshold k bias) < w) = (w * (36 - threshold k bias) > maxInt)"
    using int_div_less_iff [OF pos, of maxInt w] by auto
  show ?thesis
    using assms(2)
    by (simp add: digitToBasic_unit(2) [OF assms(1,2)] Let_def base_def chk chk2)
qed

declare decode_digits.simps [simp del]

lemma encode_digits_step:
  assumes "0 \<le> q"
  shows "encode_digits bias q k =
     (if q < threshold k bias then (q, [])
      else (fst (encode_digits bias ((q - threshold k bias) div (36 - threshold k bias)) (k + 36)),
            fromCharCode (digitToBasic
              (threshold k bias + (q - threshold k bias) mod (36 - threshold k bias)) False)
            # snd (encode_digits bias ((q - threshold k bias) div (36 - threshold k bias)) (k + 36))))"
proof (cases "q < threshold k bias")
  case True
  then show ?thesis by (simp add: encode_digits.simps [of bias q k])
next
  case False
  have pos: "0 < 36 - threshold k bias" using threshold_range [of k bias] by simp
  have "js_rem (q - threshold k bias) (36 - threshold k bias)
        = (q - threshold k bias) mod (36 - threshold k bias)"
    using False pos by (simp add: js_rem_nonneg)
  with False show ?thesis
    by (simp add: encode_digits.simps [of bias q k] Let_def base_def split: prod.splits)
qed

lemma decode_encode_digits:
  assumes "encode_digits bias q k = (q', ds)"
    and "0 \<le> q" and "0 \<le> i" and "1 \<le> w"
    and "0 \<le> bias" and "bias \<le> 215"
    and "k = 36 * (int j + 1)" and "w \<le> 35 ^ j"
  shows "decode_digits bias i w k (ds @ fromCharCode (digitToBasic q' False) # R)
         = (if i + q * w \<le> maxInt then Inr (i + q * w, R) else Inl Overflow)"
  using assms
proof (induction bias q k arbitrary: q' ds i w j rule: encode_digits.induct)
  case (1 bias q k)
  let ?t = "threshold k bias"
  let ?b = "36 - ?t"
  have t: "1 \<le> ?t" "?t \<le> 26" using threshold_range [of k bias] by auto
  have w: "0 < w" using "1.prems"(4) by simp
  show ?case
  proof (cases "q < ?t")
    case True
    with "1.prems"(1,2) have res: "q' = q" "ds = []"
      by (simp_all add: encode_digits_step [of q bias k])
    have q: "0 \<le> q" "q < 36" using True t "1.prems"(2) by auto
    show ?thesis
      unfolding res using True by (simp add: decode_digits_step [OF q w])
  next
    case False
    let ?d = "?t + (q - ?t) mod ?b"
    let ?q1 = "(q - ?t) div ?b"
    obtain q1' ds1 where rec: "encode_digits bias ?q1 (k + 36) = (q1', ds1)"
      by fastforce
    have pos: "0 < ?b" using t by simp
    have m1: "(q - ?t) mod ?b < ?b" using pos by (rule pos_mod_bound)
    have m2: "0 \<le> (q - ?t) mod ?b" using pos by (rule pos_mod_sign)
    have d: "0 \<le> ?d" "?d < 36" "?t \<le> ?d"
      using t m1 m2 by linarith+
    have q1: "0 \<le> ?q1"
      using False pos by (simp add: pos_imp_zdiv_nonneg_iff)
    from "1.prems"(1,2) False rec
    have res: "q' = q1'" "ds = fromCharCode (digitToBasic ?d False) # ds1"
      by (simp_all add: encode_digits_step [of q bias k])
    have q_eq: "q = ?d + ?b * ?q1"
      using mult_div_mod_eq [of ?b "q - ?t"] by linarith
    have dw: "?d * w \<le> q * w"
    proof -
      have "0 \<le> ?b * ?q1" using pos q1 by simp
      with q_eq have "?d \<le> q" by linarith
      then show ?thesis using w by (simp add: mult_right_mono)
    qed
    have sum: "i + ?d * w + ?q1 * (w * ?b) = i + q * w"
    proof -
      have "q * w = (?d + ?b * ?q1) * w" using q_eq by simp
      then show ?thesis by (simp add: algebra_simps)
    qed
    have big: "i + q * w > maxInt" if ov: "w * ?b > maxInt" and ok: "i + ?d * w \<le> maxInt"
    proof (cases "?q1 = 0")
      case False
      with q1 have "1 \<le> ?q1" by simp
      then have "w * ?b * 1 \<le> w * ?b * ?q1"
        using w pos by (intro mult_left_mono) auto
      then have "w * ?b \<le> ?q1 * (w * ?b)" by (simp add: algebra_simps)
      moreover have "0 \<le> ?d * w" using d(1) w by simp
      ultimately show ?thesis using ov sum "1.prems"(3) by linarith
    next
      case True
      show ?thesis
      proof (cases "?t = 26")
        case True
        then have "w * ?b \<le> w * ?d"
          using d(3) w by (intro mult_left_mono) auto
        with ov ok "1.prems"(3) show ?thesis by (simp add: algebra_simps)
      next
        case False
        then have "k < bias + 26"
          by (auto simp: threshold_def tMin_def tMax_def split: if_splits)
        with "1.prems"(6,7) have "j \<le> 5" by simp
        then have "(35::int) ^ j \<le> 35 ^ 5" by (intro power_increasing) auto
        with "1.prems"(8) have "w \<le> 35 ^ 5" by simp
        moreover have "?b \<le> 35" using t by simp
        ultimately have "w * ?b \<le> 35 ^ 5 * 35"
          using w pos by (intro mult_mono) auto
        with ov show ?thesis by (simp add: maxInt_def)
      qed
    qed
    have le35: "w * ?b \<le> 35 ^ Suc j"
    proof -
      have "?b \<le> 35" using t by simp
      then have "w * ?b \<le> 35 ^ j * 35"
        using "1.prems"(8) w pos by (intro mult_mono) auto
      then show ?thesis by (simp add: mult.commute)
    qed
    have ih: "decode_digits bias (i + ?d * w) (w * ?b) (k + 36)
                (ds1 @ fromCharCode (digitToBasic q1' False) # R)
              = (if i + q * w \<le> maxInt then Inr (i + q * w, R) else Inl Overflow)"
      if "i + ?d * w \<le> maxInt"
    proof -
      have a: "0 \<le> i + ?d * w" using "1.prems"(3) d(1) w by simp
      have b: "1 \<le> w * ?b" using w pos by (smt (verit) mult_pos_pos)
      have c: "k + 36 = 36 * (int (Suc j) + 1)" using "1.prems"(7) by simp
      from "1.IH" [unfolded base_def, OF refl False refl refl rec q1 a b "1.prems"(5,6) c le35]
      show ?thesis unfolding sum .
    qed
    have step: "decode_digits bias i w k (ds @ fromCharCode (digitToBasic q' False) # R) =
        (if i + ?d * w > maxInt then Inl Overflow
         else if w * ?b > maxInt then Inl Overflow
         else decode_digits bias (i + ?d * w) (w * ?b) (k + 36)
                (ds1 @ fromCharCode (digitToBasic q1' False) # R))"
      unfolding res using d(3) by (simp add: decode_digits_step [OF d(1,2) w])
    show ?thesis
    proof (cases "i + ?d * w > maxInt")
      case True
      with dw have "i + q * w > maxInt" by linarith
      with True show ?thesis unfolding step by simp
    next
      case ok: False
      show ?thesis
      proof (cases "w * ?b > maxInt")
        case True
        with big ok have "i + q * w > maxInt" by simp
        with True ok show ?thesis unfolding step by simp
      next
        case False
        with ok ih show ?thesis unfolding step by simp
      qed
    qed
  qed
qed

subsection \<open>Code points and the basic prefix\<close>

lemma codePointUnits_uint: "codePointUnits (uint u) = [u]"
proof -
  have "uint u < 65536" using uint_lt2p [of u] by simp
  then show ?thesis by (simp add: codePointUnits_def)
qed

lemma codePointUnits_pair:
  assumes "0xD800 \<le> uint u" "uint u \<le> 0xDBFF" "0xDC00 \<le> uint v" "uint v \<le> 0xDFFF"
  shows "codePointUnits ((uint u - 0xD800) * 0x400 + (uint v - 0xDC00) + 0x10000) = [u, v]"
proof -
  define a where "a = uint u - 0xD800"
  define b where "b = uint v - 0xDC00"
  have b: "0 \<le> b" "b < 0x400" using assms by (auto simp: b_def)
  have a: "0 \<le> a" using assms by (auto simp: a_def)
  have 1: "(a * 0x400 + b + 0x10000 - 0x10000) div 0x400 = a" using b by simp
  have 2: "(a * 0x400 + b + 0x10000 - 0x10000) mod 0x400 = b" using b by simp
  have 3: "\<not> a * 0x400 + b + 0x10000 < 0x10000" using a b by simp
  have u: "word_of_int (0xD800 + a) = u" by (simp add: a_def)
  have v: "word_of_int (0xDC00 + b) = v" by (simp add: b_def)
  have "codePointUnits (a * 0x400 + b + 0x10000) = [u, v]"
    unfolding codePointUnits_def 1 2 using 3 u v by simp
  then show ?thesis by (simp add: a_def b_def)
qed

lemma fromCodePoint_ucs2decode: "fromCodePoint (ucs2decode s) = Inr s"
proof -
  have "concat (map codePointUnits (ucs2decode s)) = s"
  proof (induction s rule: ucs2decode.induct)
    case 1
    then show ?case by simp
  next
    case (2 u)
    then show ?case by (simp add: codePointUnits_uint)
  next
    case (3 u v rest)
    show ?case
    proof (cases "0xD800 \<le> uint u \<and> uint u \<le> 0xDBFF \<and> 0xDC00 \<le> uint v \<and> uint v \<le> 0xDFFF")
      case True
      with 3 codePointUnits_pair [of u v] show ?thesis by simp
    next
      case False
      then have "ucs2decode (u # v # rest) = uint u # ucs2decode (v # rest)" by auto
      with 3(2) [OF False] show ?thesis by (simp add: codePointUnits_uint)
    qed
  qed
  moreover have "list_all (\<lambda>cp. 0 \<le> cp \<and> cp \<le> 0x10FFFF) (ucs2decode s)"
    using ucs2decode_code_points [of s] by (simp add: code_points_def)
  ultimately show ?thesis by (simp add: fromCodePoint_def)
qed

lemma decode_basic_ascii:
  "list_all (\<lambda>u. uint u < 0x80) b \<Longrightarrow> decode_basic b = Inr (map uint b)"
  by (induction b) auto

lemma digit_unit_not_delimiter: "list_all digit_unit E \<Longrightarrow> delimiter \<notin> set E"
  by (auto simp: list_all_iff digit_unit_def delimiter_def)

lemma decode_after_prefix:
  assumes "list_all (\<lambda>u. uint u < 0x80) b" and "list_all digit_unit E"
  shows "decode ((if b = [] then [] else b @ [delimiter]) @ E) =
         (case decode_loop initialN 0 initialBias (map uint b) E of
            Inl e \<Rightarrow> Inl e | Inr out \<Rightarrow> fromCodePoint out)"
proof (cases "b = []")
  case True
  from digit_unit_not_delimiter [OF assms(2)]
  have "lastIndexOf delimiter E = - 1" by (rule lastIndexOf_absent)
  with True show ?thesis by (simp add: decode_def)
next
  case False
  from digit_unit_not_delimiter [OF assms(2)]
  have "lastIndexOf delimiter (b @ delimiter # E) = int (length b)" by (rule lastIndexOf_append)
  moreover have "0 < int (length b)" using False by simp
  ultimately show ?thesis
    using False assms(1) by (simp add: decode_def decode_basic_ascii nat_add_distrib)
qed

subsection \<open>The bound on the arguments of the final call\<close>

lemma decode_on_after_prefix:
  assumes "list_all (\<lambda>u. uint u < 0x80) b" and "list_all digit_unit E"
  shows "decode_on maxArgs ((if b = [] then [] else b @ [delimiter]) @ E) =
         (case decode_loop initialN 0 initialBias (map uint b) E of
            Inl e \<Rightarrow> Inl e | Inr out \<Rightarrow> spread_fromCodePoint maxArgs out)"
proof (cases "b = []")
  case True
  from digit_unit_not_delimiter [OF assms(2)]
  have "lastIndexOf delimiter E = - 1" by (rule lastIndexOf_absent)
  with True show ?thesis by (simp add: decode_on_def)
next
  case False
  from digit_unit_not_delimiter [OF assms(2)]
  have "lastIndexOf delimiter (b @ delimiter # E) = int (length b)" by (rule lastIndexOf_append)
  moreover have "0 < int (length b)" using False by simp
  ultimately show ?thesis
    using False assms(1) by (simp add: decode_on_def decode_basic_ascii nat_add_distrib)
qed

lemma spread_ucs2decode:
  "spread_fromCodePoint maxArgs (ucs2decode s)
   = (if maxArgs < length (ucs2decode s) then Inl TooManyArguments else Inr s)"
  by (simp add: spread_fromCodePoint_def fromCodePoint_ucs2decode)

lemma length_codePointUnits: "length cps \<le> length (concat (map codePointUnits cps))"
  by (induction cps) (auto simp: codePointUnits_def)

text \<open>\<open>decode\<close> and \<open>decode_on\<close> differ in the final call only: an error of the loops is
  the same in both, and so is a result that is no longer than \<open>maxArgs\<close> (the array has
  at most as many elements as the string has units).\<close>

lemma decode_on_error:
  assumes "decode input = Inl e" and "e \<noteq> InvalidCodePoint"
  shows "decode_on maxArgs input = Inl e"
  using assms
  by (auto simp: decode_def decode_on_def Let_def fromCodePoint_def
           split: sum.splits if_splits)

lemma decode_on_fits:
  assumes "decode input = Inr s" and "length s \<le> maxArgs"
  shows "decode_on maxArgs input = Inr s"
proof -
  have "spread_fromCodePoint maxArgs out = Inr s" if "fromCodePoint out = Inr s" for out
  proof -
    from that have "s = concat (map codePointUnits out)"
      by (auto simp: fromCodePoint_def split: if_splits)
    with length_codePointUnits [of out] assms(2) have "length out \<le> maxArgs" by simp
    with that show ?thesis by (simp add: spread_fromCodePoint_def)
  qed
  with assms(1) show ?thesis
    by (auto simp: decode_def decode_on_def Let_def split: sum.splits if_splits)
qed

subsection \<open>The decoder follows the encoder\<close>

lemma divmod_offset:
  fixes a m c :: int
  assumes "0 \<le> c" and "c < m"
  shows "(a * m + c) div m = a" and "(a * m + c) mod m = c"
  using assms by simp_all

lemma splice_insert_inside:
  "0 \<le> c \<Longrightarrow> c \<le> int (length xs) \<Longrightarrow>
   splice_insert c x xs = take (nat c) xs @ x # drop (nat c) xs"
  by (simp add: splice_insert_def Let_def min_def)

lemma decode_loop_emit:
  assumes enc: "encode_digits bias delta 36 = (q, ds)"
    and delta: "0 \<le> delta" and di: "0 \<le> di"
    and bias: "0 \<le> bias" "bias \<le> 215"
    and h: "h = int (length out)"
    and pos: "di + delta = (n - dn) * (h + 1) + c" "0 \<le> c" "c \<le> h"
    and n: "dn \<le> n" "n \<le> maxInt"
  shows "decode_loop dn di bias out (ds @ fromCharCode (digitToBasic q False) # R) =
    (if di + delta \<le> maxInt
     then decode_loop n (c + 1) (adapt delta (h + 1) (di = 0))
            (take (nat c) out @ n # drop (nat c) out) R
     else Inl Overflow)"
proof -
  have digits: "decode_digits bias di 1 base (ds @ fromCharCode (digitToBasic q False) # R)
        = (if di + delta \<le> maxInt then Inr (di + delta, R) else Inl Overflow)"
    using decode_encode_digits [OF enc delta di _ bias, of 1 0 R] by (simp add: base_def)
  have ne: "ds @ fromCharCode (digitToBasic q False) # R \<noteq> []" by simp
  show ?thesis
  proof (cases "di + delta \<le> maxInt")
    case False
    then show ?thesis
      by (subst decode_loop.simps) (simp add: digits)
  next
    case True
    have hpos: "c < h + 1" "0 < h + 1" using pos(2,3) by auto
    have dv: "(di + delta) div (h + 1) = n - dn" "(di + delta) mod (h + 1) = c"
      unfolding pos(1) using divmod_offset [OF pos(2) hpos(1)] by auto
    have rem: "js_rem (di + delta) (h + 1) = c"
      using dv(2) di delta hpos(2) by (simp add: js_rem_nonneg)
    have ins: "splice_insert c n out = take (nat c) out @ n # drop (nat c) out"
      using pos(2,3) h by (intro splice_insert_inside) auto
    have chk: "\<not> n - dn > maxInt - dn" using n(2) by simp
    show ?thesis
      using True chk
      by (subst decode_loop.simps)
         (simp add: digits h [symmetric] dv rem ins Let_def)
  qed
qed

lemma sim_after_same:
  assumes "sim_after bl cps st1 st' E dn di out"
    and "st_n st1 = st_n st" "st_output st1 = st_output st" "st_bias st1 = st_bias st"
  shows "sim_after bl cps st st' E dn di out"
  using assms by (simp add: sim_after_def)

lemma sim_after_emit:
  assumes later: "sim_after bl cps st2 st' E' dn2 di2 out2"
    and st2: "st_n st2 = st_n st" "st_output st2 = st_output st @ E1" "list_all digit_unit E1"
    and dec: "\<forall>R. decode_loop dn di (st_bias st) out (E1 @ R)
                  = decode_loop dn2 di2 (st_bias st2) out2 R"
  shows "sim_after bl cps st st' (E1 @ E') dn di out"
proof -
  from later have base: "st_n st' = st_n st" "st_output st' = st_output st @ (E1 @ E')"
    "list_all digit_unit (E1 @ E')"
    using st2 by (simp_all add: sim_after_def)
  from later consider
    (ov) "maxInt < 0x10FFFF * int (length cps)"
         "\<forall>R. decode_loop dn2 di2 (st_bias st2) out2 (E' @ R) = Inl Overflow"
  | (ok) dn' di' out' where "enc_dec_rel bl cps [] st' dn' di' out'"
         "\<forall>R. decode_loop dn2 di2 (st_bias st2) out2 (E' @ R)
              = decode_loop dn' di' (st_bias st') out' R"
    by (auto simp: sim_after_def)
  then show ?thesis
  proof cases
    case ov
    with dec have "\<forall>R. decode_loop dn di (st_bias st) out ((E1 @ E') @ R) = Inl Overflow"
      by simp
    with ov(1) base show ?thesis by (simp add: sim_after_def)
  next
    case ok
    with dec have "\<forall>R. decode_loop dn di (st_bias st) out ((E1 @ E') @ R)
                       = decode_loop dn' di' (st_bias st') out' R"
      by simp
    with ok(1) base show ?thesis unfolding sim_after_def by blast
  qed
qed

lemma bound_step:
  fixes n dn h L :: int
  assumes "dn \<le> n" "n \<le> 0x10FFFF" "128 \<le> dn" "0 \<le> h" "h + 1 \<le> L"
  shows "(n - dn) * (h + 1) + h < 0x10FFFF * L"
proof -
  have "(n - dn) * (h + 1) \<le> (0x10FFFF - 128) * (h + 1)"
    using assms by (intro mult_right_mono) auto
  moreover have "(0x10FFFF - 128) * (h + 1) + h < 0x10FFFF * (h + 1)"
    using assms(4) by simp
  moreover have "0x10FFFF * (h + 1) \<le> 0x10FFFF * L" using assms(5) by simp
  ultimately show ?thesis by linarith
qed

lemma pass_simulation:
  assumes "enc_dec_rel bl pre post st dn di out"
    and "pre @ post = cps" and "code_points cps" and "st_n st \<le> 0x10FFFF"
    and "dn = st_n st \<or> st_handled st < int (length cps)"
    and "hp = int (length (filter (\<lambda>x. x < st_n st) cps)) + 1"
    and "st_handled st + 1 = hp \<or>
         (st_delta st \<le> int (length (filter (\<lambda>x. x < st_n st) pre)) \<and> st_handled st \<noteq> bl)"
  shows "(encode_pass bl hp post st = Inl Overflow \<and> maxInt < 0x10FFFF * int (length cps)) \<or>
         (\<exists>st' E. encode_pass bl hp post st = Inr st' \<and> sim_after bl cps st st' E dn di out)"
  using assms
proof (induction post arbitrary: pre st dn di out)
  case Nil
  then have "sim_after bl cps st st [] dn di out"
    unfolding sim_after_def by auto
  then show ?case by auto
next
  case (Cons c post)
  let ?n = "st_n st" and ?h = "st_handled st" and ?L = "int (length cps)"
  let ?cpre = "int (length (filter (\<lambda>x. x \<le> ?n) pre))"
  note rel = Cons.prems(1) [unfolded enc_dec_rel_def]
  from rel have out: "out = filter (\<lambda>x. x \<le> ?n) pre @ filter (\<lambda>x. x < ?n) (c # post)"
    and h: "?h = int (length out)"
    and delta: "st_delta st = (?n - dn) * (?h + 1) + ?cpre - di" "0 \<le> st_delta st"
    and dn: "128 \<le> dn" "dn \<le> ?n" and di: "0 \<le> di"
    and bl: "bl \<le> ?h" "(di = 0) = (?h = bl)"
    and bias: "0 \<le> st_bias st" "st_bias st \<le> 215"
    by auto
  have cps: "(pre @ [c]) @ post = cps" using Cons.prems(2) by simp
  have L: "?L = int (length pre) + 1 + int (length post)" using Cons.prems(2) by auto
  have h0: "0 \<le> ?h" using h by simp
  have "length (filter (\<lambda>x. x \<le> ?n) pre) \<le> length pre" by (rule length_filter_le)
  then have cpre_le: "?cpre \<le> int (length pre)" by (rule iffD2 [OF of_nat_le_iff])
  consider (less) "c < ?n" | (eq) "c = ?n" | (greater) "c > ?n" by linarith
  then show ?case
  proof cases
    case less
    have cpre_h: "?cpre + 1 \<le> ?h" using less out h by simp
    have d1: "st_delta st + 1 \<le> 0x10FFFF * ?L"
    proof (cases "dn = ?n")
      case True
      then have "st_delta st + 1 \<le> ?cpre + 1" using delta(1) di by simp
      also have "\<dots> \<le> ?L" using L cpre_le by linarith
      also have "\<dots> \<le> 0x10FFFF * ?L" by simp
      finally show ?thesis .
    next
      case False
      with Cons.prems(5) have "?h + 1 \<le> ?L" by simp
      from bound_step [OF dn(2) Cons.prems(4) dn(1) h0 this] delta(1) di cpre_h
      show ?thesis by linarith
    qed
    show ?thesis
    proof (cases "st_delta st + 1 > maxInt")
      case True
      with less d1 show ?thesis by simp
    next
      case False
      let ?st1 = "st\<lparr>st_delta := st_delta st + 1\<rparr>"
      have step: "encode_pass bl hp (c # post) st = encode_pass bl hp post ?st1"
        using less False by (simp add: Let_def)
      have rel1: "enc_dec_rel bl (pre @ [c]) post ?st1 dn di out"
        using rel less by (auto simp: enc_dec_rel_def)
      have hp1: "hp = int (length (filter (\<lambda>x. x < st_n ?st1) cps)) + 1"
        using Cons.prems(6) by simp
      have J1: "st_handled ?st1 + 1 = hp \<or>
         (st_delta ?st1 \<le> int (length (filter (\<lambda>x. x < st_n ?st1) (pre @ [c])))
            \<and> st_handled ?st1 \<noteq> bl)"
        using Cons.prems(7) less by auto
      from Cons.IH [OF rel1 cps Cons.prems(3) _ _ hp1 J1] Cons.prems(4,5)
      have "(encode_pass bl hp post ?st1 = Inl Overflow \<and> maxInt < 0x10FFFF * ?L) \<or>
            (\<exists>st' E. encode_pass bl hp post ?st1 = Inr st' \<and> sim_after bl cps ?st1 st' E dn di out)"
        by simp
      then have "(encode_pass bl hp post ?st1 = Inl Overflow \<and> maxInt < 0x10FFFF * ?L) \<or>
            (\<exists>st' E. encode_pass bl hp post ?st1 = Inr st' \<and> sim_after bl cps st st' E dn di out)"
      proof (elim disjE exE conjE)
        fix st' E
        assume a: "encode_pass bl hp post ?st1 = Inr st'" "sim_after bl cps ?st1 st' E dn di out"
        from sim_after_same [OF a(2), of st] have "sim_after bl cps st st' E dn di out" by simp
        with a(1) show ?thesis by blast
      qed simp
      then show ?thesis unfolding step .
    qed
  next
    case greater
    have step: "encode_pass bl hp (c # post) st = encode_pass bl hp post st"
      using greater by (simp add: Let_def)
    have rel1: "enc_dec_rel bl (pre @ [c]) post st dn di out"
      using rel greater by (auto simp: enc_dec_rel_def)
    have J1: "st_handled st + 1 = hp \<or>
         (st_delta st \<le> int (length (filter (\<lambda>x. x < st_n st) (pre @ [c])))
            \<and> st_handled st \<noteq> bl)"
      using Cons.prems(7) greater by auto
    from Cons.IH [OF rel1 cps Cons.prems(3,4,5,6) J1] show ?thesis
      unfolding step .
  next
    case eq
    obtain q ds where enc: "encode_digits (st_bias st) (st_delta st) base = (q, ds)"
      by fastforce
    let ?E1 = "ds @ [fromCharCode (digitToBasic q False)]"
    let ?bias' = "adapt (st_delta st) hp (?h = bl)"
    let ?st2 = "st\<lparr>st_output := st_output st @ ?E1, st_bias := ?bias',
                    st_delta := 0, st_handled := ?h + 1\<rparr>"
    have step: "encode_pass bl hp (c # post) st = encode_pass bl hp post ?st2"
      using eq enc by (simp add: Let_def)
    from encode_digits_units [OF delta(2) enc]
    have q: "0 \<le> q" "q < 36" and ds: "list_all digit_unit ds" by auto
    have E1: "list_all digit_unit ?E1"
      using ds digitToBasic_unit(1) [OF q] by simp
    have out_eq: "out = filter (\<lambda>x. x \<le> ?n) pre @ filter (\<lambda>x. x < ?n) post"
      using out eq by simp
    have cpre_h: "?cpre \<le> ?h" using out_eq h by simp
    have hL: "?h + 1 \<le> ?L"
    proof -
      have "length out \<le> length pre + length post"
        unfolding out_eq by (simp add: add_mono)
      then show ?thesis using h L by simp
    qed
    have sum: "di + st_delta st = (?n - dn) * (?h + 1) + ?cpre"
      using delta(1) by simp
    have sum_bound: "di + st_delta st < 0x10FFFF * ?L"
      using bound_step [OF dn(2) Cons.prems(4) dn(1) h0 hL] sum cpre_h by linarith
    have nmax: "?n \<le> maxInt" using Cons.prems(4) by (simp add: maxInt_def)
    let ?out2 = "take (nat ?cpre) out @ ?n # drop (nat ?cpre) out"
    have emit: "decode_loop dn di (st_bias st) out (?E1 @ R) =
        (if di + st_delta st \<le> maxInt
         then decode_loop ?n (?cpre + 1) (adapt (st_delta st) (?h + 1) (?h = bl)) ?out2 R
         else Inl Overflow)" for R
      using decode_loop_emit [OF enc [unfolded base_def] delta(2) di bias h sum _ cpre_h dn(2) nmax, of R]
        bl(2) by simp
    have facts: "encode_pass bl hp post ?st2 = Inl Overflow \<or>
         (\<exists>st' E. encode_pass bl hp post ?st2 = Inr st' \<and> st_n st' = st_n ?st2
            \<and> st_handled st' = st_handled ?st2 + int (length (filter (\<lambda>c. c = st_n ?st2) post))
            \<and> 0 \<le> st_delta st' \<and> st_output st' = st_output ?st2 @ E \<and> list_all digit_unit E)"
      by (rule encode_pass_facts) simp
    show ?thesis
    proof (cases "di + st_delta st \<le> maxInt")
      case False
      then have big: "maxInt < 0x10FFFF * ?L" using sum_bound by linarith
      from facts have "(encode_pass bl hp post ?st2 = Inl Overflow \<and> maxInt < 0x10FFFF * ?L) \<or>
            (\<exists>st' E. encode_pass bl hp post ?st2 = Inr st' \<and> sim_after bl cps st st' E dn di out)"
      proof (elim disjE exE conjE)
        assume "encode_pass bl hp post ?st2 = Inl Overflow"
        with big show ?thesis by simp
      next
        fix st' E
        assume a: "encode_pass bl hp post ?st2 = Inr st'" "st_n st' = st_n ?st2"
          "st_output st' = st_output ?st2 @ E" "list_all digit_unit E"
        have "\<forall>R. decode_loop dn di (st_bias st) out ((?E1 @ E) @ R) = Inl Overflow"
          using emit False by simp
        with a big E1 have "sim_after bl cps st st' (?E1 @ E) dn di out"
          by (simp add: sim_after_def)
        with a(1) show ?thesis by blast
      qed
      then show ?thesis unfolding step .
    next
      case True
      have dmax: "st_delta st \<le> maxInt" using True di by simp
      have hp: "1 \<le> hp" using Cons.prems(6) by simp
      note b' = adapt_bounds [OF delta(2) dmax hp, of "?h = bl"]
      have bias_eq: "adapt (st_delta st) (?h + 1) (?h = bl) = ?bias'"
      proof (cases "?h + 1 = hp")
        case True
        then show ?thesis by simp
      next
        case False
        with Cons.prems(7) have small: "st_delta st \<le> int (length (filter (\<lambda>x. x < ?n) pre))"
          and later: "?h \<noteq> bl" by auto
        have "length (filter (\<lambda>x. x < ?n) pre) \<le> length (filter (\<lambda>x. x < ?n) cps)"
          unfolding Cons.prems(2) [symmetric] by simp
        with small Cons.prems(6) have lt1: "st_delta st < hp" by linarith
        have "length (filter (\<lambda>x. x < ?n) pre) \<le> length (filter (\<lambda>x. x \<le> ?n) pre)"
        proof -
          have "filter (\<lambda>x. x < ?n) pre = filter (\<lambda>x. x < ?n) (filter (\<lambda>x. x \<le> ?n) pre)"
            by (auto intro: filter_cong)
          then show ?thesis by (metis length_filter_le)
        qed
        with small cpre_h have lt2: "st_delta st < ?h + 1" by linarith
        from adapt_small [OF delta(2) dmax lt2 lt1] later show ?thesis by simp
      qed
      have out2: "?out2 = filter (\<lambda>x. x \<le> ?n) (pre @ [c]) @ filter (\<lambda>x. x < ?n) post"
        unfolding out_eq using eq by simp
      have rel2: "enc_dec_rel bl (pre @ [c]) post ?st2 ?n (?cpre + 1) ?out2"
        unfolding out2 using b' bl(1) dn eq h out_eq
        by (auto simp: enc_dec_rel_def)
      have hp2: "hp = int (length (filter (\<lambda>x. x < st_n ?st2) cps)) + 1"
        using Cons.prems(6) by simp
      have J2: "st_handled ?st2 + 1 = hp \<or>
         (st_delta ?st2 \<le> int (length (filter (\<lambda>x. x < st_n ?st2) (pre @ [c])))
            \<and> st_handled ?st2 \<noteq> bl)"
        using bl(1) by simp
      have "(encode_pass bl hp post ?st2 = Inl Overflow \<and> maxInt < 0x10FFFF * ?L) \<or>
            (\<exists>st' E. encode_pass bl hp post ?st2 = Inr st' \<and>
                sim_after bl cps ?st2 st' E ?n (?cpre + 1) ?out2)"
        using Cons.IH [OF rel2 cps Cons.prems(3) _ _ hp2 J2] Cons.prems(4) by simp
      then have "(encode_pass bl hp post ?st2 = Inl Overflow \<and> maxInt < 0x10FFFF * ?L) \<or>
            (\<exists>st' E. encode_pass bl hp post ?st2 = Inr st' \<and> sim_after bl cps st st' E dn di out)"
      proof (elim disjE exE conjE)
        assume "encode_pass bl hp post ?st2 = Inl Overflow" "maxInt < 0x10FFFF * ?L"
        then show ?thesis by simp
      next
        fix st' E
        assume a: "encode_pass bl hp post ?st2 = Inr st'"
          "sim_after bl cps ?st2 st' E ?n (?cpre + 1) ?out2"
        have "sim_after bl cps st st' (?E1 @ E) dn di out"
        proof (rule sim_after_emit [OF a(2)])
          show "\<forall>R. decode_loop dn di (st_bias st) out (?E1 @ R)
                  = decode_loop ?n (?cpre + 1) (st_bias ?st2) ?out2 R"
            using emit True bias_eq by simp
        qed (use E1 in simp_all)
        with a(1) show ?thesis by blast
      qed
      then show ?thesis unfolding step .
    qed
  qed
qed

lemma loop_simulation:
  assumes "enc_dec_rel bl [] cps st dn di out" and "code_points cps"
  shows "(encode_loop cps bl st = Some (Inl Overflow) \<and> maxInt < 0x10FFFF * int (length cps)) \<or>
     (\<exists>E. encode_loop cps bl st = Some (Inr (st_output st @ E)) \<and> list_all digit_unit E \<and>
        (decode_loop dn di (st_bias st) out E = Inr cps \<or>
         (decode_loop dn di (st_bias st) out E = Inl Overflow
            \<and> maxInt < 0x10FFFF * int (length cps))))"
  using assms(1)
proof (induction "nat (int (length cps) - st_handled st)" arbitrary: st dn di out rule: less_induct)
  case less
  let ?n = "st_n st" and ?h = "st_handled st" and ?L = "int (length cps)"
  note cps = assms(2)
  note rel = less.prems [unfolded enc_dec_rel_def]
  from rel have out: "out = filter (\<lambda>x. x < ?n) cps"
    and h: "?h = int (length out)"
    and delta: "st_delta st = (?n - dn) * (?h + 1) - di" "0 \<le> st_delta st"
    and dn: "128 \<le> dn" "dn \<le> ?n" and di: "0 \<le> di"
    and bl: "bl \<le> ?h" "(di = 0) = (?h = bl)"
    and bias: "0 \<le> st_bias st" "st_bias st \<le> 215"
    by auto
  have inv: "enc_inv cps st" using out h delta(2) by (simp add: enc_inv_def)
  have h0: "0 \<le> ?h" using h by simp
  show ?case
  proof (cases "?h < ?L")
    case False
    have "length (filter (\<lambda>x. x < ?n) cps) \<le> length cps" by (rule length_filter_le)
    with False h out have "length (filter (\<lambda>x. x < ?n) cps) = length cps" by simp
    then have "filter (\<lambda>x. x < ?n) cps = cps"
      by (metis filter_id_conv length_filter_less not_less_iff_gr_or_eq)
    then have "decode_loop dn di (st_bias st) out [] = Inr cps"
      using out by (simp add: decode_loop_code)
    moreover have "encode_loop cps bl st = Some (Inr (st_output st @ []))"
      using False by (simp add: encode_loop_code)
    ultimately show ?thesis by (intro disjI2 exI [of _ "[]"]) simp
  next
    case True
    let ?m = "min_from cps ?n"
    from enc_inv_unhandled [OF inv True] obtain c0 where c0: "c0 \<in> set cps" "?n \<le> c0" by blast
    note m = min_from_facts [OF cps c0]
    have hp: "0 < ?h + 1" using h0 by simp
    have hL: "?h + 1 \<le> ?L" using True by simp
    have chk: "(?m - ?n > (maxInt - st_delta st) div (?h + 1))
               = (st_delta st + (?m - ?n) * (?h + 1) > maxInt)"
      using int_div_less_iff [OF hp, of "maxInt - st_delta st" "?m - ?n"] by auto
    have delta0: "st_delta st + (?m - ?n) * (?h + 1) = (?m - dn) * (?h + 1) - di"
      unfolding delta(1) by (simp add: algebra_simps)
    have dnm: "dn \<le> ?m" using dn(2) m(2) by simp
    have bound: "st_delta st + (?m - ?n) * (?h + 1) < 0x10FFFF * ?L"
      using bound_step [OF dnm m(4) dn(1) h0 hL] delta0 di h0 by linarith
    show ?thesis
    proof (cases "st_delta st + (?m - ?n) * (?h + 1) > maxInt")
      case ov: True
      then have "encode_iter cps bl st = Inl Overflow"
        using chk by (simp add: encode_iter_def Let_def)
      then have "encode_loop cps bl st = Some (Inl Overflow)"
        using True by (simp add: encode_loop_code)
      with ov bound show ?thesis by simp
    next
      case ok: False
      let ?st0 = "st\<lparr>st_delta := st_delta st + (?m - ?n) * (?h + 1), st_n := ?m\<rparr>"
      have iter: "encode_iter cps bl st =
          (case encode_pass bl (?h + 1) cps ?st0 of Inl e \<Rightarrow> Inl e
           | Inr st' \<Rightarrow> Inr (st'\<lparr>st_delta := st_delta st' + 1, st_n := st_n st' + 1\<rparr>))"
        using ok chk by (simp add: encode_iter_def Let_def)
      have same: "filter (\<lambda>x. x < ?m) cps = filter (\<lambda>x. x < ?n) cps"
        using m(2,3) by (intro filter_cong) auto
      have d0: "0 \<le> st_delta st + (?m - ?n) * (?h + 1)"
        using delta(2) m(2) h0 by simp
      have rel0: "enc_dec_rel bl [] cps ?st0 dn di out"
        using out h delta0 d0 dn(1) dnm di bl bias same by (simp add: enc_dec_rel_def)
      have hp0: "?h + 1 = int (length (filter (\<lambda>x. x < st_n ?st0) cps)) + 1"
        using h out same by simp
      have J0: "st_handled ?st0 + 1 = ?h + 1 \<or>
         (st_delta ?st0 \<le> int (length (filter (\<lambda>x. x < st_n ?st0) [])) \<and> st_handled ?st0 \<noteq> bl)"
        by simp
      have pass: "(encode_pass bl (?h + 1) cps ?st0 = Inl Overflow \<and> maxInt < 0x10FFFF * ?L) \<or>
         (\<exists>st' E. encode_pass bl (?h + 1) cps ?st0 = Inr st'
            \<and> sim_after bl cps ?st0 st' E dn di out)"
        using pass_simulation [OF rel0 _ cps _ _ hp0 J0] m(4) True by simp
      then show ?thesis
      proof (elim disjE exE conjE)
        assume "encode_pass bl (?h + 1) cps ?st0 = Inl Overflow" and big: "maxInt < 0x10FFFF * ?L"
        then have "encode_loop cps bl st = Some (Inl Overflow)"
          using True iter by (simp add: encode_loop_code)
        with big show ?thesis by simp
      next
        fix st' E
        assume pass': "encode_pass bl (?h + 1) cps ?st0 = Inr st'"
          and after: "sim_after bl cps ?st0 st' E dn di out"
        let ?st'' = "st'\<lparr>st_delta := st_delta st' + 1, st_n := st_n st' + 1\<rparr>"
        have iter': "encode_iter cps bl st = Inr ?st''" using iter pass' by simp
        have loop: "encode_loop cps bl st = encode_loop cps bl ?st''"
          using True iter' by (simp add: encode_loop_code)
        from encode_iter_facts [OF inv cps True, of bl] iter'
        have inv'': "enc_inv cps ?st''" and grow: "?h < st_handled ?st''" by auto
        from after have n': "st_n st' = ?m" and out': "st_output st' = st_output st @ E"
          and E: "list_all digit_unit E"
          by (simp_all add: sim_after_def)
        from after consider
          (dov) "maxInt < 0x10FFFF * ?L"
                "\<forall>R. decode_loop dn di (st_bias st) out (E @ R) = Inl Overflow"
        | (dok) dn' di' out' where "enc_dec_rel bl cps [] st' dn' di' out'"
                "\<forall>R. decode_loop dn di (st_bias st) out (E @ R)
                     = decode_loop dn' di' (st_bias st') out' R"
          by (auto simp: sim_after_def)
        then show ?thesis
        proof cases
          case dov
          from encode_loop_facts [OF inv'' cps, of bl] show ?thesis
          proof (elim disjE exE conjE)
            assume "encode_loop cps bl ?st'' = Some (Inl Overflow)"
            with dov(1) loop show ?thesis by simp
          next
            fix E2
            assume e2: "encode_loop cps bl ?st'' = Some (Inr (st_output ?st'' @ E2))"
              "list_all digit_unit E2"
            have "encode_loop cps bl st = Some (Inr (st_output st @ (E @ E2)))"
              using loop e2(1) out' by simp
            moreover have "decode_loop dn di (st_bias st) out (E @ E2) = Inl Overflow"
              using dov(2) by simp
            ultimately show ?thesis
              using dov(1) E e2(2) by (intro disjI2 exI [of _ "E @ E2"]) simp
          qed
        next
          case dok
          note rel' = dok(1) [unfolded enc_dec_rel_def]
          have lt: "filter (\<lambda>x. x < ?m + 1) cps = filter (\<lambda>x. x \<le> ?m) cps"
            by (intro filter_cong) auto
          from rel' n' have h': "st_handled st' = int (length (filter (\<lambda>x. x \<le> ?m) cps))"
            and o': "out' = filter (\<lambda>x. x \<le> ?m) cps"
            and dl': "st_delta st' = (?m - dn') * (st_handled st' + 1) + st_handled st' - di'"
            by auto
          have dl'': "st_delta st' + 1 = (?m + 1 - dn') * (st_handled st' + 1) - di'"
            unfolding dl' by (simp add: algebra_simps)
          have rel'': "enc_dec_rel bl [] cps ?st'' dn' di' out'"
            using rel' n' lt h' o' dl'' by (simp add: enc_dec_rel_def)
          have less: "nat (?L - st_handled ?st'') < nat (?L - ?h)"
            using grow True by linarith
          from less.hyps [OF less rel''] show ?thesis
          proof (elim disjE exE conjE)
            assume "encode_loop cps bl ?st'' = Some (Inl Overflow)"
              "maxInt < 0x10FFFF * ?L"
            with loop show ?thesis by simp
          next
            fix E2
            assume e2: "encode_loop cps bl ?st'' = Some (Inr (st_output ?st'' @ E2))"
              "list_all digit_unit E2"
              "decode_loop dn' di' (st_bias ?st'') out' E2 = Inr cps"
            have "encode_loop cps bl st = Some (Inr (st_output st @ (E @ E2)))"
              using loop e2(1) out' by simp
            moreover have "decode_loop dn di (st_bias st) out (E @ E2) = Inr cps"
              using dok(2) e2(3) by simp
            ultimately show ?thesis
              using E e2(2) by (intro disjI2 exI [of _ "E @ E2"]) simp
          next
            fix E2
            assume e2: "encode_loop cps bl ?st'' = Some (Inr (st_output ?st'' @ E2))"
              "list_all digit_unit E2"
              "decode_loop dn' di' (st_bias ?st'') out' E2 = Inl Overflow"
              "maxInt < 0x10FFFF * ?L"
            have "encode_loop cps bl st = Some (Inr (st_output st @ (E @ E2)))"
              using loop e2(1) out' by simp
            moreover have "decode_loop dn di (st_bias st) out (E @ E2) = Inl Overflow"
              using dok(2) e2(3) by simp
            ultimately show ?thesis
              using E e2(2,4) by (intro disjI2 exI [of _ "E @ E2"]) simp
          qed
        qed
      qed
    qed
  qed
qed

lemma enc_dec_rel_init:
  "enc_dec_rel (int (length (filter (\<lambda>c. c < 0x80) cps))) [] cps (encode_init cps)
     initialN 0 (filter (\<lambda>c. c < 0x80) cps)"
  by (simp add: enc_dec_rel_def encode_init_def Let_def initialN_def initialBias_def)

lemma encode_then_decode:
  "(encode s = Inl Overflow \<and> maxInt < 0x10FFFF * int (length (ucs2decode s))) \<or>
   (\<exists>e. encode s = Inr e \<and>
      ((decode e = Inr s
          \<and> (\<forall>maxArgs. decode_on maxArgs e = spread_fromCodePoint maxArgs (ucs2decode s))) \<or>
       (decode e = Inl Overflow \<and> (\<forall>maxArgs. decode_on maxArgs e = Inl Overflow)
          \<and> maxInt < 0x10FFFF * int (length (ucs2decode s)))))"
proof -
  let ?cps = "ucs2decode s"
  let ?b = "filter (\<lambda>u. uint u < 0x80) s"
  let ?bl = "int (length (filter (\<lambda>c. c < 0x80) ?cps))"
  have run: "encode_loop ?cps ?bl (encode_init ?cps) = Some (encode s)"
    using encode_run_returns [of s] by (simp add: encode_run_def Let_def)
  have pre: "st_output (encode_init ?cps) = (if ?b = [] then [] else ?b @ [delimiter])"
    by (simp add: encode_init_output Let_def)
  have basic: "list_all (\<lambda>u. uint u < 0x80) ?b" by (simp add: list_all_iff)
  have bias0: "st_bias (encode_init ?cps) = initialBias"
    by (simp add: encode_init_def Let_def)
  let ?o = "(if ?b = [] then [] else ?b @ [delimiter])"
  have sim: "(encode s = Inl Overflow \<and> maxInt < 0x10FFFF * int (length ?cps)) \<or>
     (\<exists>E. encode s = Inr (?o @ E) \<and> list_all digit_unit E \<and>
        (decode_loop initialN 0 initialBias (map uint ?b) E = Inr ?cps \<or>
         (decode_loop initialN 0 initialBias (map uint ?b) E = Inl Overflow
            \<and> maxInt < 0x10FFFF * int (length ?cps))))"
    using loop_simulation [OF enc_dec_rel_init ucs2decode_code_points, of s, unfolded run,
        unfolded pre bias0 ucs2decode_basic option.inject] .
  then show ?thesis
  proof (elim disjE exE conjE)
    assume "encode s = Inl Overflow" "maxInt < 0x10FFFF * int (length ?cps)"
    then show ?thesis by simp
  next
    fix E
    assume e: "encode s = Inr (?o @ E)"
      and E: "list_all digit_unit E"
      and d: "decode_loop initialN 0 initialBias (map uint ?b) E = Inr ?cps"
    have "decode (?o @ E) = Inr s"
      unfolding decode_after_prefix [OF basic E] d by (simp add: fromCodePoint_ucs2decode)
    moreover have "decode_on maxArgs (?o @ E) = spread_fromCodePoint maxArgs ?cps" for maxArgs
      unfolding decode_on_after_prefix [OF basic E] d by simp
    ultimately show ?thesis using e by auto
  next
    fix E
    assume e: "encode s = Inr (?o @ E)"
      and E: "list_all digit_unit E"
      and d: "decode_loop initialN 0 initialBias (map uint ?b) E = Inl Overflow"
      and big: "maxInt < 0x10FFFF * int (length ?cps)"
    have "decode (?o @ E) = Inl Overflow"
      unfolding decode_after_prefix [OF basic E] d by simp
    moreover have "decode_on maxArgs (?o @ E) = Inl Overflow" for maxArgs
      unfolding decode_on_after_prefix [OF basic E] d by simp
    ultimately show ?thesis using e big by auto
  qed
qed

text \<open>
  C1, amended.  On a platform that accepts at most \<open>maxArgs\<close> arguments in one call: for
  every string \<open>s\<close> on which \<open>encode\<close> succeeds, \<open>decode(encode(s))\<close> fails with Overflow, or
  it reaches its final call with the code points of \<open>s\<close>, and then it is \<open>s\<close> when \<open>s\<close> has
  at most \<open>maxArgs\<close> code points and the RangeError of the platform when it has more.  For
  every string of at most 1927 code points, and at most \<open>maxArgs\<close>, \<open>encode\<close> succeeds and
  \<open>decode(encode(s))\<close> is \<open>s\<close>.
\<close>

theorem decode_encode_roundtrip:
  "(encode s = Inr e \<longrightarrow>
      decode_on maxArgs e = Inl Overflow
      \<or> decode_on maxArgs e
          = (if maxArgs < length (ucs2decode s) then Inl TooManyArguments else Inr s))
   \<and> (length (ucs2decode s) \<le> 1927 \<and> length (ucs2decode s) \<le> maxArgs
        \<longrightarrow> (\<exists>e. encode s = Inr e \<and> decode_on maxArgs e = Inr s))"
proof -
  have "\<not> maxInt < 0x10FFFF * int (length (ucs2decode s))" if "length (ucs2decode s) \<le> 1927"
    using that by (simp add: maxInt_def)
  with encode_then_decode [of s] show ?thesis
    by (auto simp: spread_fromCodePoint_def fromCodePoint_ucs2decode)
qed

theorem decode_encode_roundtrip_witness:
  "encode (ascii ''ma'' @ [0xF1] @ ascii ''ana'') = Inr (ascii ''maana-pta'')
   \<and> length (ucs2decode (ascii ''ma'' @ [0xF1] @ ascii ''ana'')) \<le> 1927
   \<and> length (ucs2decode (ascii ''ma'' @ [0xF1] @ ascii ''ana'')) \<le> 6
   \<and> decode_on 6 (ascii ''maana-pta'') = Inr (ascii ''ma'' @ [0xF1] @ ascii ''ana'')
   \<and> decode_on 5 (ascii ''maana-pta'') = Inl TooManyArguments"
proof -
  have e: "encode (ascii ''ma'' @ [0xF1] @ ascii ''ana'') = Inr (ascii ''maana-pta'')"
    by code_simp
  have l: "length (ucs2decode (ascii ''ma'' @ [0xF1] @ ascii ''ana'')) = 6"
    by code_simp
  have t: "decode_on 5 (ascii ''maana-pta'') = Inl TooManyArguments"
    by code_simp
  from decode_encode_roundtrip [of "ascii ''ma'' @ [0xF1] @ ascii ''ana''" "ascii ''maana-pta''" 6]
    e l t
  show ?thesis by auto
qed

subsection \<open>A string on which the round trip fails\<close>

lemma encode_pass_skip:
  assumes "\<forall>x\<in>set xs. x < st_n st" and "st_delta st + int (length xs) \<le> maxInt"
  shows "encode_pass bl hp (xs @ rest) st
         = encode_pass bl hp rest (st\<lparr>st_delta := st_delta st + int (length xs)\<rparr>)"
  using assms
proof (induction xs arbitrary: st)
  case Nil
  then show ?case by simp
next
  case (Cons x xs)
  let ?st1 = "st\<lparr>st_delta := st_delta st + 1\<rparr>"
  have step: "encode_pass bl hp ((x # xs) @ rest) st = encode_pass bl hp (xs @ rest) ?st1"
    using Cons.prems by (simp add: Let_def)
  have "encode_pass bl hp (xs @ rest) ?st1
        = encode_pass bl hp rest (?st1\<lparr>st_delta := st_delta ?st1 + int (length xs)\<rparr>)"
    using Cons.prems by (intro Cons.IH) auto
  then show ?case unfolding step by (simp add: ac_simps)
qed

lemma overflow_input_encoded: "encode overflow_input = Inr overflow_encoded"
proof -
  let ?cps = "replicate 1926 97 @ [128, 1113968 :: int]"
  let ?as = "replicate 1926 (0x61 :: 16 word)"
  have cps: "ucs2decode overflow_input = ?cps"
    unfolding overflow_input_def
    by (subst ucs2decode_plain_append) (simp_all add: list_all_length)
  have skip: "encode_pass bl hp (replicate 1926 97 @ rest) st
        = encode_pass bl hp rest (st\<lparr>st_delta := st_delta st + 1926\<rparr>)"
    if "97 < st_n st" "st_delta st + 1926 \<le> maxInt" for bl hp rest st
    using encode_pass_skip [of "replicate 1926 97" st bl hp rest] that by simp
  have d1: "encode_digits 72 1926 base = (1, ascii ''bu'')" unfolding base_def by code_simp
  have a1: "adapt 1926 1927 True = 1" by code_simp
  have d2: "encode_digits 1 2147483520 base = (18, ascii ''43649585'')"
    unfolding base_def by code_simp
  have c1: "fromCharCode (digitToBasic 1 False) = 0x62" "fromCharCode (digitToBasic 18 False) = 0x73"
    by (simp_all add: fromCharCode_def digitToBasic_def)
  let ?st0 = "\<lparr>st_n = 128, st_delta = 0, st_bias = 72, st_handled = 1926,
               st_output = ?as @ [0x2D]\<rparr>"
  let ?st1 = "\<lparr>st_n = 129, st_delta = 1, st_bias = 1, st_handled = 1927,
               st_output = ?as @ ascii ''-bub''\<rparr>"
  let ?st2 = "\<lparr>st_n = 1113969, st_delta = 1, st_bias = adapt 2147483520 1928 False,
               st_handled = 1928, st_output = ?as @ ascii ''-bub43649585s''\<rparr>"
  have init: "encode_init ?cps = ?st0"
    by (simp add: encode_init_def Let_def fromCharCode_def bootstring_params delimiter_def)
  have bl: "int (length (filter (\<lambda>c. c < 0x80) ?cps)) = 1926" by simp
  have m0: "min_from ?cps 128 = 128" by (simp add: min_from_def maxInt_def)
  have m1: "min_from ?cps 129 = 1113968" by (simp add: min_from_def maxInt_def)
  have p1: "encode_pass 1926 1927 ?cps ?st0 = Inr (?st1\<lparr>st_n := 128, st_delta := 0\<rparr>)"
    by (subst skip) (simp_all add: maxInt_def Let_def d1 a1 c1 ascii_def)
  have i1: "encode_iter ?cps 1926 ?st0 = Inr ?st1"
    by (simp add: encode_iter_def Let_def maxInt_def m0 p1)
  have p2: "encode_pass 1926 1928 ?cps
      \<lparr>st_n = 1113968, st_delta = 2147481593, st_bias = 1, st_handled = 1927,
        st_output = ?as @ ascii ''-bub''\<rparr>
       = Inr (?st2\<lparr>st_n := 1113968, st_delta := 0\<rparr>)"
    by (subst skip) (simp_all add: maxInt_def Let_def d2 c1 ascii_def)
  have i2: "encode_iter ?cps 1926 ?st1 = Inr ?st2"
    by (simp add: encode_iter_def Let_def maxInt_def m1 p2)
  have l2: "encode_loop ?cps 1926 ?st2 = Some (Inr (st_output ?st2))"
    by (subst encode_loop_code) simp
  have l1: "encode_loop ?cps 1926 ?st1 = encode_loop ?cps 1926 ?st2"
    by (subst encode_loop_code) (simp add: i2)
  have l0: "encode_loop ?cps 1926 ?st0 = encode_loop ?cps 1926 ?st1"
    by (subst encode_loop_code) (simp add: i1)
  show ?thesis
    unfolding encode_def encode_run_def cps Let_def bl init l0 l1 l2
    by (simp add: overflow_encoded_def)
qed

lemma overflow_encoded_decoded:
  "decode overflow_encoded = Inl Overflow \<and> decode_on maxArgs overflow_encoded = Inl Overflow"
proof -
  let ?as = "replicate 1926 (0x61 :: 16 word)"
  let ?D = "ascii ''bub43649585s''"
  have b: "list_all (\<lambda>u. uint u < 0x80) ?as" by (simp add: list_all_length)
  have D: "list_all digit_unit ?D" by (simp add: ascii_def digit_unit_def)
  have e: "overflow_encoded = (if ?as = [] then [] else ?as @ [delimiter]) @ ?D"
    by (simp add: overflow_encoded_def ascii_def delimiter_def)
  have d1: "decode_digits 72 0 1 36 ?D = Inr (1926, ascii ''43649585s'')" by code_simp
  have a1: "adapt 1926 1927 True = 1" by code_simp
  have d2: "decode_digits 1 1927 1 36 (ascii ''43649585s'') = Inl Overflow" by code_simp
  have l1: "decode_loop 128 0 72 (replicate 1926 97) ?D
        = decode_loop 128 1927 1 (splice_insert 1926 128 (replicate 1926 97)) (ascii ''43649585s'')"
    by (subst decode_loop.simps)
       (simp add: d1 a1 base_def maxInt_def js_rem_def Let_def, simp add: ascii_def)
  have l2: "decode_loop 128 1927 1 out (ascii ''43649585s'') = Inl Overflow" for out
    by (subst decode_loop.simps) (simp add: d2 base_def, simp add: ascii_def)
  show ?thesis
    unfolding e decode_after_prefix [OF b D] decode_on_after_prefix [OF b D]
    by (simp add: initialN_def initialBias_def l1 l2)
qed

text \<open>
  C1, as the claim states it, fails.  \<open>decode\<close> adds the digits it reads to \<open>i\<close>, which starts
  at the position after the last insertion, and checks the sum against \<open>maxInt\<close>; \<open>encode\<close>
  checks \<open>delta\<close> alone.  On 1926 times \<open>a\<close>, U+0080 and U+10FF70 the last \<open>delta\<close> is
  2147483520, which \<open>encode\<close> accepts, and \<open>i\<close> would be 2147485447: \<open>decode\<close> throws Overflow
  on what \<open>encode\<close> returned, whatever the number of arguments that the platform accepts.
\<close>

theorem roundtrip_fails_with_overflow:
  "encode overflow_input = Inr overflow_encoded \<and> decode overflow_encoded = Inl Overflow
   \<and> (\<forall>maxArgs. decode_on maxArgs overflow_encoded = Inl Overflow)"
  using overflow_input_encoded overflow_encoded_decoded by simp

section \<open>Domain names and email addresses: properties\<close>

lemma mapDomain_second_at:
  assumes "0x40 \<notin> set p" and "0x40 \<notin> set d"
  shows "mapDomain (p @ 0x40 # d @ 0x40 # rest) callback = mapDomain (p @ 0x40 # d) callback"
proof -
  have 1: "split 0x40 (p @ 0x40 # d @ 0x40 # rest) = p # d # split 0x40 rest"
    using assms by (simp add: split_append)
  have 2: "split 0x40 (p @ 0x40 # d) = [p, d]"
    using assms by (simp add: split_append split_absent)
  have dl: "domain_labels (p @ 0x40 # d @ 0x40 # rest) = domain_labels (p @ 0x40 # d)"
    by (simp add: domain_labels_def 1 2)
  have lp: "local_part (p @ 0x40 # d @ 0x40 # rest) = local_part (p @ 0x40 # d)"
    by (simp add: local_part_def 1 2)
  show ?thesis
    unfolding mapDomain_def dl lp by (rule refl)
qed

text \<open>
  C2.  \<open>mapDomain\<close> splits at every \<open>@\<close> and keeps \<open>parts[0]\<close> and \<open>parts[1]\<close> only: the
  domain is the text between the first and the second \<open>@\<close>, and the second \<open>@\<close> with all that
  follows it is missing from the result (\<open>mapDomain_second_at\<close>).  On \<open>"a@b@c"\<close> both
  \<open>toASCII\<close> and \<open>toUnicode\<close> return \<open>"a@b"\<close>.
\<close>

theorem text_after_second_at_is_dropped:
  "toASCII (ascii ''a@b@c'') = Inr (ascii ''a@b'')
   \<and> toUnicode lower (ascii ''a@b@c'') = Inr (ascii ''a@b'')"
  by code_simp

text \<open>What \<open>toUnicode\<close> does with each label of the domain: a label is handed to \<open>decode\<close>
  (its rest lower-cased) when its first four units are the lower-case \<open>xn--\<close>, and every
  other label is returned as it is.\<close>

lemma toUnicode_label_cases:
  assumes "toUnicode lower input = Inr out"
  shows "\<exists>ls. out = local_part input @ join 0x2E ls
           \<and> length ls = length (domain_labels input)
           \<and> (\<forall>j < length ls.
                 (take 4 (domain_labels input ! j) = ascii ''xn--''
                    \<longrightarrow> decode (toLowerCase lower (drop 4 (domain_labels input ! j))) = Inr (ls ! j))
               \<and> (take 4 (domain_labels input ! j) \<noteq> ascii ''xn--''
                    \<longrightarrow> ls ! j = domain_labels input ! j))"
proof -
  have xn: "ascii ''xn--'' = [0x78, 0x6E, 0x2D, 0x2D]"
    by (simp add: ascii_def)
  from assms obtain ls where
    ls: "map_labels (toUnicode_label lower) (domain_labels input) = Inr ls"
    and out: "out = local_part input @ join 0x2E ls"
    by (auto simp: toUnicode_def mapDomain_def split: sum.splits)
  from ls have len: "length ls = length (domain_labels input)"
    and each: "\<forall>j < length (domain_labels input).
                 toUnicode_label lower (domain_labels input ! j) = Inr (ls ! j)"
    by (simp_all add: map_labels_Inr_iff)
  from each len have
    "\<forall>j < length ls.
        (take 4 (domain_labels input ! j) = ascii ''xn--''
           \<longrightarrow> decode (toLowerCase lower (drop 4 (domain_labels input ! j))) = Inr (ls ! j))
      \<and> (take 4 (domain_labels input ! j) \<noteq> ascii ''xn--''
           \<longrightarrow> ls ! j = domain_labels input ! j)"
    by (auto simp: toUnicode_label_def regexPunycode_test_def xn split: if_splits)
  with out len show ?thesis by blast
qed

text \<open>
  C3.  The claim has \<open>toUnicode\<close> decode every label that starts with \<open>xn--\<close>, case ignored.
  The code ignores case in the rest of such a label (\<open>str.slice(4).toLowerCase()\<close>, and
  \<open>basicToDigit\<close> reads \<open>A\<close> to \<open>Z\<close>): \<open>"xn--MAANA-PTA"\<close> is decoded to \<open>"ma\u00F1ana"\<close>.
  But \<open>regexPunycode\<close> is \<open>/^xn--/\<close> without the \<open>i\<close> flag: the label \<open>"XN--maana-pta"\<close>,
  which starts with \<open>xn--\<close> when case is ignored and whose rest decodes to \<open>"ma\u00F1ana"\<close>,
  is returned unchanged.
\<close>

theorem uppercase_prefix_not_decoded:
  "starts_with_xn_ci (ascii ''XN--maana-pta'')
   \<and> toUnicode id (ascii ''XN--maana-pta'') = Inr (ascii ''XN--maana-pta'')
   \<and> decode (toLowerCase id (drop 4 (ascii ''XN--maana-pta'')))
       = Inr (ascii ''ma'' @ [0xF1] @ ascii ''ana'')
   \<and> toUnicode id (ascii ''xn--MAANA-PTA'') = Inr (ascii ''ma'' @ [0xF1] @ ascii ''ana'')"
  by code_simp

text \<open>
  C6.  When \<open>encode\<close> fails on a label that \<open>toASCII\<close> encodes, or \<open>decode\<close> on a label that
  \<open>toUnicode\<close> decodes, and the labels before it were mapped without an error, the whole
  call fails with that same error: no result is returned.
\<close>


theorem label_error_fails_whole_call:
  "(domain_labels input = pre @ l # post \<and> (\<forall>x\<in>set pre. \<exists>r. toASCII_label x = Inr r)
      \<and> regexNonASCII_test l \<and> encode l = Inl e
    \<longrightarrow> toASCII input = Inl e)
   \<and> (domain_labels input = pre @ l # post \<and> (\<forall>x\<in>set pre. \<exists>r. toUnicode_label lower x = Inr r)
      \<and> regexPunycode_test l \<and> decode (toLowerCase lower (drop 4 l)) = Inl e
    \<longrightarrow> toUnicode lower input = Inl e)"
proof (intro conjI impI)
  assume a: "domain_labels input = pre @ l # post \<and> (\<forall>x\<in>set pre. \<exists>r. toASCII_label x = Inr r)
      \<and> regexNonASCII_test l \<and> encode l = Inl e"
  then have "toASCII_label l = Inl e" by (simp add: toASCII_label_def)
  with a show "toASCII input = Inl e"
    by (simp add: toASCII_def mapDomain_def map_labels_first_error)
next
  assume a: "domain_labels input = pre @ l # post \<and> (\<forall>x\<in>set pre. \<exists>r. toUnicode_label lower x = Inr r)
      \<and> regexPunycode_test l \<and> decode (toLowerCase lower (drop 4 l)) = Inl e"
  then have "toUnicode_label lower l = Inl e" by (simp add: toUnicode_label_def)
  with a show "toUnicode lower input = Inl e"
    by (simp add: toUnicode_def mapDomain_def map_labels_first_error)
qed


theorem label_error_fails_whole_call_witness:
  "toASCII (ascii ''a.'' @ replicate 1927 0x61 @ [0xDBFF, 0xDFFF] @ ascii ''.b'') = Inl Overflow
   \<and> toUnicode id (ascii ''a.xn---.b'') = Inl InvalidInput"
proof -
  let ?l = "replicate 1927 (0x61 :: 16 word) @ [0xDBFF, 0xDFFF]"
  have nodot: "0x2E \<notin> set ?l" by simp
  have "split 0x2E (ascii ''a.'' @ ?l @ ascii ''.b'') = [ascii ''a'', ?l, ascii ''b'']"
    using split_append [OF nodot, of "ascii ''b''"]
    by (simp add: ascii_def Let_def split_absent)
  moreover have "0x40 \<notin> set (ascii ''a.'' @ ?l @ ascii ''.b'')"
    by (simp add: ascii_def)
  moreover have "replace_separators (ascii ''a.'' @ ?l @ ascii ''.b'') = ascii ''a.'' @ ?l @ ascii ''.b''"
    by (simp add: replace_separators_def ascii_def)
  ultimately have labels:
    "domain_labels (ascii ''a.'' @ ?l @ ascii ''.b'') = [ascii ''a''] @ ?l # [ascii ''b'']"
    by (simp add: domain_labels_def split_absent)
  have pre: "\<forall>x\<in>set [ascii ''a'']. \<exists>r. toASCII_label x = Inr r"
    by (simp add: toASCII_label_def regexNonASCII_test_def ascii_def)
  have nonascii: "regexNonASCII_test ?l"
    by (simp add: regexNonASCII_test_def)
  have 1: "toASCII (ascii ''a.'' @ ?l @ ascii ''.b'') = Inl Overflow"
    using label_error_fails_whole_call [THEN conjunct1, rule_format, of _ "[ascii ''a'']" ?l
        "[ascii ''b'']" Overflow] labels pre nonascii encode_overflow_example
    by blast
  have labels2: "domain_labels (ascii ''a.xn---.b'') = [ascii ''a''] @ ascii ''xn---'' # [ascii ''b'']"
    by code_simp
  have pre2: "\<forall>x\<in>set [ascii ''a'']. \<exists>r. toUnicode_label id x = Inr r"
    by (simp add: toUnicode_label_def regexPunycode_test_def ascii_def)
  have test2: "regexPunycode_test (ascii ''xn---'')" by code_simp
  have dec2: "decode (toLowerCase id (drop 4 (ascii ''xn---''))) = Inl InvalidInput"
    by code_simp
  have 2: "toUnicode id (ascii ''a.xn---.b'') = Inl InvalidInput"
    using label_error_fails_whole_call [THEN conjunct2, rule_format, of _ "[ascii ''a'']"
        "ascii ''xn---''" "[ascii ''b'']" id InvalidInput] labels2 pre2 test2 dec2
    by blast
  show ?thesis using 1 2 by simp
qed

subsection \<open>Idempotence\<close>

lemma split_parts_no_sep: "p \<in> set (split sep xs) \<Longrightarrow> sep \<notin> set p"
proof (induction xs arbitrary: p)
  case Nil
  then show ?case by simp
next
  case (Cons c cs)
  have ne: "split sep cs \<noteq> []" by (rule split_not_Nil)
  then have parts: "split sep cs = hd (split sep cs) # tl (split sep cs)" by simp
  have hd_in: "hd (split sep cs) \<in> set (split sep cs)" using ne by simp
  have tl_in: "q \<in> set (tl (split sep cs)) \<Longrightarrow> q \<in> set (split sep cs)" for q
    using ne by (auto dest: list.set_sel(2))
  from Cons.prems show ?case
    using Cons.IH [OF hd_in] Cons.IH [OF tl_in] Cons.IH
    by (auto simp: Let_def split: if_splits)
qed

lemma split_join:
  "ls \<noteq> [] \<Longrightarrow> \<forall>l\<in>set ls. sep \<notin> set l \<Longrightarrow> split sep (join sep ls) = ls"
proof (induction sep ls rule: join.induct)
  case (1 sep)
  then show ?case by simp
next
  case (2 sep p)
  then show ?case by (simp add: split_absent)
next
  case (3 sep p q ps)
  then show ?case by (simp add: split_append)
qed

lemma join_split: "join sep (split sep xs) = xs"
proof (induction xs)
  case Nil
  then show ?case by simp
next
  case (Cons c cs)
  obtain q qs where parts: "split sep cs = q # qs"
    using split_not_Nil [of sep cs] by (cases "split sep cs") auto
  from Cons parts show ?case
    by (cases qs) (auto simp: Let_def)
qed

lemma map_labels_unchanged:
  "\<forall>l\<in>set ls. f l = Inr l \<Longrightarrow> map_labels f ls = Inr ls"
  by (induction ls) auto

lemma map_labels_all:
  "map_labels f ls = Inr rs \<Longrightarrow> r \<in> set rs \<Longrightarrow> \<exists>l\<in>set ls. f l = Inr r"
  unfolding map_labels_Inr_iff by (metis in_set_conv_nth)

lemma digit_unit_plain: "digit_unit u \<Longrightarrow> u \<le> 0x7F \<and> u \<noteq> 0x2E \<and> u \<noteq> 0x40"
  by (auto simp: digit_unit_def word_le_def)

lemma toASCII_label_plain:
  assumes "toASCII_label l = Inr r" and "0x2E \<notin> set l" and "0x40 \<notin> set l"
  shows "plain_label r"
proof (cases "regexNonASCII_test l")
  case False
  with assms have "r = l" by (simp add: toASCII_label_def)
  moreover from False have "\<forall>u\<in>set l. u \<le> 0x7F"
    by (auto simp: regexNonASCII_test_def list_ex_iff)
  ultimately show ?thesis using assms(2,3) by (auto simp: plain_label_def list_all_iff)
next
  case True
  with assms(1) obtain e where e: "encode l = Inr e" and r: "r = [0x78, 0x6E, 0x2D, 0x2D] @ e"
    by (auto simp: toASCII_label_def split: sum.splits)
  from encode_shape [of l] e obtain E where
    shape: "e = (let b = filter (\<lambda>u. uint u < 0x80) l in if b = [] then [] else b @ [delimiter]) @ E"
    and E: "list_all digit_unit E"
    by auto
  have "plain_label E" using E digit_unit_plain by (auto simp: plain_label_def list_all_iff)
  moreover have "plain_label (filter (\<lambda>u. uint u < 0x80) l)"
    using assms(2,3) by (auto simp: plain_label_def list_all_iff word_le_def)
  moreover have "plain_label [delimiter]" "plain_label [0x78, 0x6E, 0x2D, 0x2D]"
    by (simp_all add: plain_label_def delimiter_def)
  ultimately show ?thesis
    unfolding r shape by (auto simp: plain_label_def Let_def)
qed

lemma domain_labels_clean:
  assumes "l \<in> set (domain_labels x)"
  shows "0x2E \<notin> set l" and "0x40 \<notin> set l"
proof -
  let ?parts = "split 0x40 x"
  let ?d = "if length ?parts > 1 then ?parts ! 1 else x"
  have l: "l \<in> set (split 0x2E (replace_separators ?d))"
    using assms by (simp add: domain_labels_def Let_def)
  then show "0x2E \<notin> set l" by (rule split_parts_no_sep)
  have "0x40 \<notin> set ?d"
  proof (cases "length ?parts > 1")
    case True
    then have "?parts ! 1 \<in> set ?parts" by (intro nth_mem) simp
    from split_parts_no_sep [OF this] True show ?thesis by simp
  next
    case False
    have "0x40 \<notin> set x"
    proof
      assume "0x40 \<in> set x"
      then obtain p r where "x = p @ 0x40 # r" "0x40 \<notin> set p"
        by (meson split_list_first)
      then have "?parts = p # split 0x40 r" by (simp add: split_append)
      with False split_not_Nil [of "0x40" r] show False by (cases "split 0x40 r") auto
    qed
    with False show ?thesis by simp
  qed
  then have "0x40 \<notin> set (replace_separators ?d)"
    by (auto simp: replace_separators_def)
  moreover have "set l \<subseteq> set (replace_separators ?d)"
  proof -
    have "set (join 0x2E (split 0x2E (replace_separators ?d))) = set (replace_separators ?d)"
      by (simp add: join_split)
    moreover have "set q \<subseteq> set (join sep qs)" if "q \<in> set qs" for q :: jsstring and sep qs
      using that by (induction sep qs rule: join.induct) auto
    ultimately show ?thesis using l by blast
  qed
  ultimately show "0x40 \<notin> set l" by blast
qed

lemma join_plain:
  "\<forall>r\<in>set rs. plain_label r \<Longrightarrow> 0x40 \<notin> set (join 0x2E rs) \<and> (\<forall>u\<in>set (join 0x2E rs). u \<le> 0x7F)"
  by (induction "0x2E :: 16 word" rs rule: join.induct) (auto simp: plain_label_def list_all_iff)

lemma replace_separators_ascii:
  "\<forall>u\<in>set d. u \<noteq> 0x3002 \<and> u \<noteq> 0xFF0E \<and> u \<noteq> 0xFF61 \<Longrightarrow> replace_separators d = d"
  by (induction d) (auto simp: replace_separators_def)

lemma mapDomain_parts:
  assumes "0x40 \<notin> set j" and "local_part x = [] \<or> (\<exists>p. local_part x = p @ [0x40] \<and> 0x40 \<notin> set p)"
  shows "local_part (local_part x @ j) = local_part x"
    and "domain_labels (local_part x @ j) = split 0x2E (replace_separators j)"
proof -
  from assms(2) have
    "local_part (local_part x @ j) = local_part x
     \<and> domain_labels (local_part x @ j) = split 0x2E (replace_separators j)"
  proof (elim disjE exE conjE)
    assume e: "local_part x = []"
    with assms(1) show ?thesis
      by (simp add: local_part_def domain_labels_def split_absent)
  next
    fix p assume p: "local_part x = p @ [0x40]" "0x40 \<notin> set p"
    from assms(1) p(2) have "split 0x40 (p @ 0x40 # j) = [p, j]"
      by (simp add: split_append split_absent)
    then show ?thesis
      unfolding p(1) by (simp add: local_part_def domain_labels_def)
  qed
  then show "local_part (local_part x @ j) = local_part x"
    and "domain_labels (local_part x @ j) = split 0x2E (replace_separators j)" by auto
qed

lemma local_part_shape:
  "local_part x = [] \<or> (\<exists>p. local_part x = p @ [0x40] \<and> 0x40 \<notin> set p)"
proof (cases "length (split 0x40 x) > 1")
  case True
  have "split 0x40 x ! 0 \<in> set (split 0x40 x)" by (intro nth_mem) (simp add: split_not_Nil)
  from split_parts_no_sep [OF this] True show ?thesis
    by (auto simp: local_part_def)
next
  case False
  then show ?thesis by (simp add: local_part_def)
qed

lemma toASCII_idempotent:
  assumes "toASCII x = Inr y"
  shows "toASCII y = Inr y"
proof -
  from assms obtain ls where
    ls: "map_labels toASCII_label (domain_labels x) = Inr ls"
    and y: "y = local_part x @ join 0x2E ls"
    by (auto simp: toASCII_def mapDomain_def split: sum.splits)
  have plain: "\<forall>r\<in>set ls. plain_label r"
  proof
    fix r assume "r \<in> set ls"
    from map_labels_all [OF ls this] obtain l
      where "l \<in> set (domain_labels x)" "toASCII_label l = Inr r" by blast
    with domain_labels_clean [of l x] show "plain_label r"
      by (auto intro: toASCII_label_plain)
  qed
  have "domain_labels x \<noteq> []"
    by (simp add: domain_labels_def Let_def split_not_Nil)
  with ls have ne: "ls \<noteq> []"
    by (auto simp: map_labels_Inr_iff)
  note j = join_plain [OF plain]
  have rs: "replace_separators (join 0x2E ls) = join 0x2E ls"
    using j by (intro replace_separators_ascii) (auto simp: word_le_def)
  have nodot: "\<forall>l\<in>set ls. 0x2E \<notin> set l"
    using plain by (auto simp: plain_label_def list_all_iff)
  have lp: "local_part y = local_part x" and dl: "domain_labels y = ls"
    unfolding y using mapDomain_parts [OF conjunct1 [OF j] local_part_shape, of x]
    by (simp_all add: rs split_join [OF ne nodot])
  have "\<not> regexNonASCII_test r" if "r \<in> set ls" for r
    using plain that
    by (fastforce simp: regexNonASCII_test_def plain_label_def list_all_iff list_ex_iff)
  then have "\<forall>r\<in>set ls. toASCII_label r = Inr r"
    by (simp add: toASCII_label_def)
  then have "map_labels toASCII_label ls = Inr ls" by (rule map_labels_unchanged)
  then have "toASCII y = Inr (local_part y @ join 0x2E ls)"
    by (simp add: toASCII_def mapDomain_def dl)
  then show ?thesis
    unfolding lp by (simp add: y)
qed

lemma toUnicode_unchanged:
  assumes "length (split 0x40 y) \<le> 2"
    and "\<forall>u\<in>set y. u \<noteq> 0x3002 \<and> u \<noteq> 0xFF0E \<and> u \<noteq> 0xFF61"
    and "\<forall>l\<in>set (domain_labels y). \<not> regexPunycode_test l"
  shows "toUnicode lower y = Inr y"
proof -
  let ?parts = "split 0x40 y"
  let ?d = "if length ?parts > 1 then ?parts ! 1 else y"
  have y: "local_part y @ ?d = y"
  proof (cases "length ?parts > 1")
    case True
    with assms(1) obtain p d where parts: "?parts = [p, d]"
      by (cases ?parts; cases "tl ?parts"; cases "tl (tl ?parts)") auto
    from join_split [of "0x40" y] have "p @ 0x40 # d = y" by (simp add: parts)
    then show ?thesis by (simp add: local_part_def parts)
  next
    case False
    then show ?thesis by (simp add: local_part_def)
  qed
  have "set ?d \<subseteq> set y"
    using y by (metis Un_upper2 set_append)
  with assms(2) have rs: "replace_separators ?d = ?d"
    by (intro replace_separators_ascii) blast
  have dl: "domain_labels y = split 0x2E ?d"
    using rs by (simp add: domain_labels_def Let_def)
  have "\<forall>l\<in>set (domain_labels y). toUnicode_label lower l = Inr l"
    using assms(3) by (simp add: toUnicode_label_def)
  then have "map_labels (toUnicode_label lower) (domain_labels y) = Inr (domain_labels y)"
    by (rule map_labels_unchanged)
  then have "toUnicode lower y = Inr (local_part y @ join 0x2E (domain_labels y))"
    by (simp add: toUnicode_def mapDomain_def)
  also have "join 0x2E (domain_labels y) = ?d"
    unfolding dl by (rule join_split)
  finally show ?thesis
    unfolding y .
qed

text \<open>
  C4, as the claim states it, fails for \<open>toUnicode\<close>: a label that decodes to a string starting
  with \<open>xn--\<close> is decoded again by a second call.
\<close>

theorem toUnicode_not_idempotent:
  "toUnicode id (ascii ''xn--xn--maana-pta-'') = Inr (ascii ''xn--maana-pta'')
   \<and> toUnicode id (ascii ''xn--maana-pta'') = Inr (ascii ''ma'' @ [0xF1] @ ascii ''ana'')
   \<and> ascii ''ma'' @ [0xF1] @ ascii ''ana'' \<noteq> ascii ''xn--maana-pta''"
  by code_simp

text \<open>
  C4, amended.  \<open>toASCII\<close> is idempotent on its own output: where \<open>toASCII(x)\<close> is defined,
  \<open>toASCII(toASCII(x))\<close> is \<open>toASCII(x)\<close>.  For \<open>toUnicode\<close> this holds where \<open>toUnicode(x)\<close> is
  defined and has at most one \<open>@\<close>, none of the separators U+3002, U+FF0E and U+FF61, and no
  label that starts with \<open>xn--\<close>.
\<close>

theorem toASCII_idempotent_toUnicode_when_unchanged:
  "(toASCII x = Inr y \<longrightarrow> toASCII y = Inr y)
   \<and> (toUnicode lower x = Inr y \<and> length (split 0x40 y) \<le> 2
        \<and> list_all (\<lambda>u. u \<noteq> 0x3002 \<and> u \<noteq> 0xFF0E \<and> u \<noteq> 0xFF61) y
        \<and> list_all (\<lambda>l. \<not> regexPunycode_test l) (domain_labels y)
      \<longrightarrow> toUnicode lower y = Inr y)"
  using toASCII_idempotent [of x y] toUnicode_unchanged [of y lower]
  by (auto simp: list_all_iff)

theorem toASCII_idempotent_toUnicode_when_unchanged_witness:
  "toASCII (ascii ''ma'' @ [0xF1] @ ascii ''ana.com'') = Inr (ascii ''xn--maana-pta.com'')
   \<and> toASCII (ascii ''xn--maana-pta.com'') = Inr (ascii ''xn--maana-pta.com'')
   \<and> toUnicode id (ascii ''xn--maana-pta.com'') = Inr (ascii ''ma'' @ [0xF1] @ ascii ''ana.com'')
   \<and> toUnicode id (ascii ''ma'' @ [0xF1] @ ascii ''ana.com'')
       = Inr (ascii ''ma'' @ [0xF1] @ ascii ''ana.com'')"
proof -
  let ?u = "ascii ''ma'' @ [0xF1] @ ascii ''ana.com''"
  let ?a = "ascii ''xn--maana-pta.com''"
  have a: "toASCII ?u = Inr ?a" by code_simp
  have u: "toUnicode id ?a = Inr ?u" by code_simp
  have c: "length (split 0x40 ?u) \<le> 2"
    "list_all (\<lambda>u. u \<noteq> 0x3002 \<and> u \<noteq> 0xFF0E \<and> u \<noteq> 0xFF61) ?u"
    "list_all (\<lambda>l. \<not> regexPunycode_test l) (domain_labels ?u)"
    by code_simp+
  from toASCII_idempotent_toUnicode_when_unchanged [of ?u ?a id] a
  have 1: "toASCII ?a = Inr ?a" by blast
  from toASCII_idempotent_toUnicode_when_unchanged [of ?a ?u id] u c
  have 2: "toUnicode id ?u = Inr ?u" by blast
  from a 1 u 2 show ?thesis by blast
qed

section \<open>Further properties\<close>

text \<open>
  The main loop of \<open>encode\<close> ends on every input: each pass that does not throw handles at
  least one more code point.
\<close>

theorem encode_always_returns: "\<exists>r. encode_run input = Some r"
  using encode_run_returns [of input] by blast

text \<open>
  \<open>ucs2.encode(ucs2.decode(s))\<close> is \<open>s\<close> for every string, lone surrogates included, that has
  at most as many code points as the platform accepts arguments in one call; on a longer
  string the spread call of \<open>ucs2.encode\<close> throws the RangeError of the platform.
\<close>

theorem ucs2_encode_decode:
  "spread_fromCodePoint maxArgs (ucs2decode s)
   = (if maxArgs < length (ucs2decode s) then Inl TooManyArguments else Inr s)"
  by (rule spread_ucs2decode)

text \<open>
  \<open>encode\<close> throws nothing but Overflow, and only on a string of more than 1927 code points.
\<close>

theorem encode_fails_only_on_long_input:
  assumes "encode s = Inl e"
  shows "e = Overflow \<and> 1927 < length (ucs2decode s)"
proof -
  from encode_then_decode [of s] assms
  have "e = Overflow" and "maxInt < 0x10FFFF * int (length (ucs2decode s))" by auto
  then show ?thesis by (simp add: maxInt_def)
qed

theorem encode_fails_only_on_long_input_witness:
  "encode (replicate 1927 0x61 @ [0xDBFF, 0xDFFF]) = Inl Overflow
   \<and> 1927 < length (ucs2decode (replicate 1927 0x61 @ [0xDBFF, 0xDFFF]))"
  using encode_fails_only_on_long_input [OF encode_overflow_example] encode_overflow_example
  by simp

text \<open>
  The empty string and the hyphen: \<open>encode("")\<close> and \<open>decode("")\<close> are \<open>""\<close>, \<open>encode("-")\<close> is
  \<open>"--"\<close> and \<open>decode("--")\<close> is \<open>"-"\<close>.
\<close>

theorem empty_and_hyphen:
  "encode [] = Inr [] \<and> decode [] = Inr []
   \<and> encode (ascii ''-'') = Inr (ascii ''--'') \<and> decode (ascii ''--'') = Inr (ascii ''-'')"
  by code_simp

end
